theory Spec2Isabelle
  imports Complex_Main "HOL-Library.Word" "HOL-Library.Multiset" "HOL-Library.Sublist"
begin

section \<open>FSNRedux: scanner, tree aggregator and layout engine\<close>

text \<open>
  A shallow embedding of the package \<^verbatim>\<open>internal/fs\<close> (entry.go, tree.go, scanner.go) and
  of the package \<^verbatim>\<open>layout\<close> (the options, nodes and \<^verbatim>\<open>Compute\<close>; \<^verbatim>\<open>scaleHeight\<close>; the
  pedestal tree \<^verbatim>\<open>computeTreeV\<close>; the treemap of mapv.go).

  Conventions of the embedding.
  \<^item> \<^verbatim>\<open>int64\<close> is \<open>64 word\<close>: \<open>+\<close> wraps, comparisons are the signed ones
    (\<open><s\<close>, \<open>\<le>s\<close>). Go's \<^verbatim>\<open>int\<close> (depths, counters, indices) is \<open>int\<close>: these count
    entries held in memory and stay far below \<open>2 ^ 63\<close>.
  \<^item> A \<^verbatim>\<open>*Entry\<close> tree is a value of the datatype \<open>Entry\<close>. A function that mutates
    the entry it is given returns the new entry. An entry inside a tree is named by its
    address, the list of child indices leading to it from the root.
  \<^item> \<^verbatim>\<open>error\<close> is \<open>error option\<close>; a \<^verbatim>\<open>nil\<close> pointer result is \<open>None\<close>.
  \<^item> \<^verbatim>\<open>time.Time\<close> is an \<open>int\<close> tick count, \<open>0\<close> the zero time.
  \<^item> The operating system and the Go standard library are parameters: the answers of
    \<^verbatim>\<open>filepath.Abs\<close>, \<^verbatim>\<open>os.Stat\<close>, \<^verbatim>\<open>os.ReadDir\<close>, \<^verbatim>\<open>sort.Slice\<close> and so on are
    arguments of the model, constrained only by their documented contracts.
\<close>

subsection \<open>entry.go: the data model\<close>

type_synonym int64 = "64 word"
type_synonym time = int

datatype EntryType = TypeFile | TypeDir | TypeSymlink | TypeOther

record ScanError =
  Path :: string
  Message :: string

datatype Entry = Entry
  (Name: string)
  (Path: string)
  (Type: EntryType)
  (Size: int64)
  (ModTime: time)
  (Children: "Entry list")
  (Depth: int)
  (Error: string)
  (Loaded: bool)

definition IsDir :: "Entry \<Rightarrow> bool" where
  "IsDir e \<longleftrightarrow> Type e = TypeDir"

fun FileCount_of :: "Entry \<Rightarrow> int" where
  "FileCount_of (Entry n p ty sz mt cs d err ld) =
     (if ty \<noteq> TypeDir then 1 else sum_list (map FileCount_of cs))"

fun DirCount_of :: "Entry \<Rightarrow> int" where
  "DirCount_of (Entry n p ty sz mt cs d err ld) =
     (if ty \<noteq> TypeDir then 0 else 1 + sum_list (map DirCount_of cs))"

subsection \<open>sort.Slice\<close>

text \<open>
  \<^verbatim>\<open>sort.Slice(x, less)\<close> belongs to the Go standard library. Its documentation promises
  a slice sorted by \<^verbatim>\<open>less\<close> holding the same elements, for a \<^verbatim>\<open>less\<close> that is a
  transitive ordering, and says that the sort is not guaranteed to be stable. The model
  takes the sorting function as a parameter \<open>srt\<close> and assumes exactly that contract.
\<close>

type_synonym 'a sort_Slice = "('a \<Rightarrow> 'a \<Rightarrow> bool) \<Rightarrow> 'a list \<Rightarrow> 'a list"

definition transitive_ordering :: "('a \<Rightarrow> 'a \<Rightarrow> bool) \<Rightarrow> bool" where
  "transitive_ordering lt \<longleftrightarrow>
     (\<forall>a. \<not> lt a a) \<and>
     (\<forall>a b c. lt a b \<longrightarrow> lt b c \<longrightarrow> lt a c) \<and>
     (\<forall>a b c. \<not> lt a b \<longrightarrow> \<not> lt b c \<longrightarrow> \<not> lt a c)"

definition sorts_Slice :: "'a sort_Slice \<Rightarrow> bool" where
  "sorts_Slice srt \<longleftrightarrow>
     (\<forall>lt xs. transitive_ordering lt \<longrightarrow>
        mset (srt lt xs) = mset xs \<and> sorted_wrt (\<lambda>a b. \<not> lt b a) (srt lt xs))"

text \<open>
  Two functions that meet the contract. \<open>insertionSort\<close> moves each element left past
  the elements it is less than, so equal elements keep their order. \<open>reversingSort\<close>
  runs it on the reversed slice, so equal elements come out in reverse order.
\<close>

fun insertLess :: "('a \<Rightarrow> 'a \<Rightarrow> bool) \<Rightarrow> 'a \<Rightarrow> 'a list \<Rightarrow> 'a list" where
  "insertLess lt x [] = [x]"
| "insertLess lt x (y # ys) = (if lt x y then x # y # ys else y # insertLess lt x ys)"

definition insertionSort :: "'a sort_Slice" where
  "insertionSort lt xs = foldl (\<lambda>acc x. insertLess lt x acc) [] xs"


subsection \<open>tree.go: the aggregator\<close>

record Tree =
  Root :: Entry
  ScannedAt :: time
  TotalSize :: int64
  FileCount :: int
  DirCount :: int
  MaxDepth :: int
  Errors :: "ScanError list"

text \<open>The comparison handed to \<^verbatim>\<open>sort.Slice\<close>: \<^verbatim>\<open>Children[i].Size > Children[j].Size\<close>.\<close>

definition bySizeDesc :: "Entry \<Rightarrow> Entry \<Rightarrow> bool" where
  "bySizeDesc a b \<longleftrightarrow> Size b <s Size a"

text \<open>
  \<open>aggregate\<close> mutates the tree's counters and the entry; the model returns both.
  \<open>aggregate_children\<close> is the loop over \<^verbatim>\<open>entry.Children\<close> with its running
  \<^verbatim>\<open>totalSize\<close>.
\<close>

fun aggregate :: "Entry sort_Slice \<Rightarrow> Tree \<Rightarrow> Entry \<Rightarrow> Tree \<times> Entry"
  and aggregate_children ::
    "Entry sort_Slice \<Rightarrow> Tree \<Rightarrow> Entry list \<Rightarrow> int64 \<Rightarrow> Tree \<times> Entry list \<times> int64"
where
  "aggregate srt t (Entry n p ty sz mt cs d err ld) =
     (let (t1, e1) =
        (if ty = TypeDir then
           (let t' = t\<lparr>DirCount := DirCount t + 1\<rparr>;
                (t'', cs', totalSize) = aggregate_children srt t' cs 0;
                cs'' = srt bySizeDesc cs';
                t''' = (if d > MaxDepth t'' then t''\<lparr>MaxDepth := d\<rparr> else t'')
            in (t''', Entry n p ty totalSize mt cs'' d err ld))
         else
           (let t' = t\<lparr>FileCount := FileCount t + 1\<rparr>;
                t'' = (if d > MaxDepth t' then t'\<lparr>MaxDepth := d\<rparr> else t')
            in (t'', Entry n p ty sz mt cs d err ld)))
      in if err \<noteq> [] then
           (t1\<lparr>Errors := Errors t1 @ [\<lparr>ScanError.Path = p, Message = err\<rparr>]\<rparr>, e1)
         else (t1, e1))"
| "aggregate_children srt t [] totalSize = (t, [], totalSize)"
| "aggregate_children srt t (child # rest) totalSize =
     (let (t', child') = aggregate srt t child;
          (t'', rest', totalSize') = aggregate_children srt t' rest (totalSize + Size child')
      in (t'', child' # rest', totalSize'))"

definition buildTree :: "Entry sort_Slice \<Rightarrow> time \<Rightarrow> Entry \<Rightarrow> Tree" where
  "buildTree srt now rootEntry =
     (let tree = \<lparr>Root = rootEntry, ScannedAt = now, TotalSize = 0, FileCount = 0,
                  DirCount = 0, MaxDepth = 0, Errors = []\<rparr>;
          (tree', rootEntry') = aggregate srt tree rootEntry
      in tree'\<lparr>Root := rootEntry', TotalSize := Size rootEntry'\<rparr>)"

subsection \<open>scanner.go: the operating system as seen by the scanner\<close>

text \<open>
  An \<^verbatim>\<open>error\<close> value: an error of the operating system with its message, or the
  \<^verbatim>\<open>*os.PathError\<close> that \<open>scanSync\<close> builds itself.
\<close>

datatype error = Errno string | PathError string string error

fun errorString :: "error \<Rightarrow> string" where
  "errorString (Errno m) = m"
| "errorString (PathError opn p e) = opn @ '' '' @ p @ '': '' @ errorString e"

definition ErrInvalid :: error where
  "ErrInvalid = Errno ''invalid argument''"

record FileInfo =
  info_Size :: int64
  info_ModTime :: time
  info_IsDir :: bool

text \<open>
  A \<^verbatim>\<open>os.DirEntry\<close> \<^verbatim>\<open>de\<close> found in a directory, together with what the operating
  system answers about the path \<^verbatim>\<open>filepath.Join(parent.Path, de.Name())\<close>:
  \<^item> \<open>de_IsSymlink\<close> is \<^verbatim>\<open>de.Type()&os.ModeSymlink != 0\<close>, \<open>de_IsDir\<close> is
    \<^verbatim>\<open>de.IsDir()\<close>, \<open>de_IsRegular\<close> is \<^verbatim>\<open>de.Type().IsRegular()\<close>;
  \<^item> \<open>de_Info\<close>, \<open>de_Stat\<close> and \<open>de_Lstat\<close> are the results of \<^verbatim>\<open>de.Info()\<close>,
    \<^verbatim>\<open>os.Stat\<close> and \<^verbatim>\<open>os.Lstat\<close> on that path, \<open>None\<close> when they return an error;
  \<^item> \<open>de_ReadDir\<close> and \<open>de_ReadDirErr\<close> are the two results of \<^verbatim>\<open>os.ReadDir\<close> on
    that path.
  The directory tree on disk is finite, so it is a value of this datatype. The walk
  never follows a symbolic link into a directory: the symlink case comes first.
\<close>

datatype DirEntry = DirEntry
  (de_Name: string)
  (de_IsSymlink: bool)
  (de_IsDir: bool)
  (de_IsRegular: bool)
  (de_Info: "FileInfo option")
  (de_Stat: "FileInfo option")
  (de_Lstat: "FileInfo option")
  (de_ReadDir: "DirEntry list")
  (de_ReadDirErr: "error option")

record OS =
  filepath_Abs :: "string \<Rightarrow> string \<times> error option"
  os_Stat :: "string \<Rightarrow> error + FileInfo"
  os_ReadDir :: "string \<Rightarrow> DirEntry list \<times> error option"
  filepath_Join :: "string \<Rightarrow> string \<Rightarrow> string"
  filepath_Base :: "string \<Rightarrow> string"
  strings_EqualFold :: "string \<Rightarrow> string \<Rightarrow> bool"
  filepath_Match :: "string \<Rightarrow> string \<Rightarrow> bool"
  runtime_NumCPU :: int
  time_Now :: time

text \<open>
  A \<^verbatim>\<open>context.Context\<close> is read only through \<^verbatim>\<open>ctx.Err()\<close> and
  \<^verbatim>\<open>ctx.Done()\<close>. \<open>ctx p k\<close> tells whether the \<open>k\<close>-th poll made by the task that
  walks the directory of path \<open>p\<close> observes the cancellation: poll \<open>0\<close> is the test at
  the start of \<^verbatim>\<open>walkDir\<close>, poll \<open>1\<close> the \<^verbatim>\<open>select\<close> on the semaphore, poll \<open>2 + i\<close>
  the test before the \<open>i\<close>-th directory entry. Every pattern of answers is allowed, so
  a statement for all \<open>ctx\<close> covers every moment of cancellation and every interleaving
  of the tasks. The tasks write to disjoint entries and \<^verbatim>\<open>wg.Wait()\<close> joins them
  all, so the tree that \<open>scanSync\<close> hands to \<open>buildTree\<close> is a function of these
  answers. The semaphore and the atomic progress counters do not reach the tree and are
  left out.
\<close>

type_synonym Context = "string \<Rightarrow> nat \<Rightarrow> bool"

definition cancelled :: Context where
  "cancelled p k = True"

definition background :: Context where
  "background p k = False"

record ScannerOptions =
  WorkerCount :: int
  MaxDepth :: int
  IgnorePatterns :: "string list"
  ShowHidden :: bool

record Scanner =
  workerCount :: int
  maxDepth :: int
  ignorePatterns :: "string list"
  showHidden :: bool

definition defaultIgnorePatterns :: "string list" where
  "defaultIgnorePatterns =
     [''.git'', ''.hg'', ''.svn'',
      ''node_modules'',
      ''.DS_Store'', ''Thumbs.db'',
      ''$RECYCLE.BIN'', ''System Volume Information'',
      ''proc'', ''sys'', ''dev'',
      ''.Trash'', ''.Spotlight-V100'', ''.fseventsd'',
      ''.DocumentRevisions-V100'', ''.TemporaryItems'']"

definition NewScanner :: "OS \<Rightarrow> ScannerOptions \<Rightarrow> Scanner" where
  "NewScanner os opts =
     (let workers = (if WorkerCount opts \<le> 0 then runtime_NumCPU os * 2 else WorkerCount opts);
          patterns = (if length (IgnorePatterns opts) = 0 then defaultIgnorePatterns
                      else IgnorePatterns opts)
      in \<lparr>workerCount = workers, maxDepth = ScannerOptions.MaxDepth opts,
          ignorePatterns = patterns, showHidden = ShowHidden opts\<rparr>)"

fun shouldIgnore_loop :: "OS \<Rightarrow> string list \<Rightarrow> string \<Rightarrow> bool" where
  "shouldIgnore_loop os [] name = False"
| "shouldIgnore_loop os (pattern # rest) name =
     (if strings_EqualFold os name pattern then True
      else if filepath_Match os pattern name then True
      else shouldIgnore_loop os rest name)"

definition shouldIgnore :: "Scanner \<Rightarrow> OS \<Rightarrow> string \<Rightarrow> bool" where
  "shouldIgnore s os name = shouldIgnore_loop os (ignorePatterns s) name"

definition HasPrefix :: "string \<Rightarrow> string \<Rightarrow> bool" where
  "HasPrefix s pre \<longleftrightarrow> take (length pre) s = pre"

subsection \<open>scanner.go: walkDir and scanSync\<close>

text \<open>
  The child entry built for one directory entry in \<open>walkDir\<close>, before the recursive
  walk of a directory child. It starts as the zero \<^verbatim>\<open>Entry\<close> with \<^verbatim>\<open>Name\<close>,
  \<^verbatim>\<open>Path\<close> and \<^verbatim>\<open>Depth\<close> set.
\<close>

definition walkDir_child :: "OS \<Rightarrow> string \<Rightarrow> int \<Rightarrow> DirEntry \<Rightarrow> Entry" where
  "walkDir_child os parentPath parentDepth de =
     (let name = de_Name de;
          path = filepath_Join os parentPath name;
          depth = parentDepth + 1
      in if de_IsSymlink de then
           (case de_Stat de of
              Some info \<Rightarrow>
                Entry name path TypeSymlink (info_Size info) (info_ModTime info) [] depth [] False
            | None \<Rightarrow>
                (case de_Lstat de of
                   Some linfo \<Rightarrow> Entry name path TypeSymlink 0 (info_ModTime linfo) [] depth [] False
                 | None \<Rightarrow> Entry name path TypeSymlink 0 0 [] depth [] False))
         else if de_IsDir de then
           (case de_Info de of
              Some info \<Rightarrow> Entry name path TypeDir 0 (info_ModTime info) [] depth [] False
            | None \<Rightarrow> Entry name path TypeDir 0 0 [] depth [] False)
         else if de_IsRegular de then
           (case de_Info de of
              Some info \<Rightarrow>
                Entry name path TypeFile (info_Size info) (info_ModTime info) [] depth [] False
            | None \<Rightarrow> Entry name path TypeFile 0 0 [] depth [] False)
         else
           (case de_Info de of
              Some info \<Rightarrow> Entry name path TypeOther 0 (info_ModTime info) [] depth [] False
            | None \<Rightarrow> Entry name path TypeOther 0 0 [] depth [] False))"

text \<open>
  \<open>walkDir s os ctx parent dirEntries err\<close>: the entry \<open>parent\<close> after the task
  \<^verbatim>\<open>walkDir(ctx, parent, sem, wg)\<close> and all the tasks it started have finished, where
  \<open>(dirEntries, err)\<close> is the answer of \<^verbatim>\<open>os.ReadDir(parent.Path)\<close>.
  \<open>walkDir_loop\<close> is the loop over \<^verbatim>\<open>dirEntries\<close>; it returns \<open>None\<close> when a poll of
  the context inside the loop makes \<^verbatim>\<open>walkDir\<close> return before it assigns
  \<^verbatim>\<open>parent.Children\<close>.
\<close>

function (sequential) walkDir :: "Scanner \<Rightarrow> OS \<Rightarrow> Context \<Rightarrow> Entry \<Rightarrow> DirEntry list \<Rightarrow> error option \<Rightarrow> Entry"
  and walkDir_loop ::
    "Scanner \<Rightarrow> OS \<Rightarrow> Context \<Rightarrow> string \<Rightarrow> int \<Rightarrow> nat \<Rightarrow> DirEntry list \<Rightarrow> Entry list \<Rightarrow>
       Entry list option"
where
  "walkDir s os ctx (Entry n p ty sz mt cs d err ld) dirEntries rerr =
     (if ctx p 0 then Entry n p ty sz mt cs d err ld
      else if maxDepth s > 0 \<and> d \<ge> maxDepth s then Entry n p ty sz mt cs d err ld
      else if ctx p 1 then Entry n p ty sz mt cs d err ld
      else
        (case rerr of
           Some e \<Rightarrow> Entry n p ty sz mt cs d (errorString e) ld
         | None \<Rightarrow>
             (case walkDir_loop s os ctx p d 0 dirEntries [] of
                None \<Rightarrow> Entry n p ty sz mt cs d err ld
              | Some children \<Rightarrow> Entry n p ty sz mt children d err True)))"
| "walkDir_loop s os ctx p d i [] children = Some children"
| "walkDir_loop s os ctx p d i (de # rest) children =
     (if ctx p (2 + i) then None
      else if shouldIgnore s os (de_Name de) then walkDir_loop s os ctx p d (i + 1) rest children
      else if \<not> showHidden s \<and> HasPrefix (de_Name de) ''.'' then
        walkDir_loop s os ctx p d (i + 1) rest children
      else
        (let child = walkDir_child os p d de;
             child' = (if \<not> de_IsSymlink de \<and> de_IsDir de then
                         walkDir s os ctx child (de_ReadDir de) (de_ReadDirErr de)
                       else child)
         in walkDir_loop s os ctx p d (i + 1) rest (children @ [child'])))"
  by pat_completeness auto

lemma size_de_ReadDir: "2 * size_list size (de_ReadDir de) < Suc (2 * size de + k)"
proof -
  have "size_list size (de_ReadDir de) < size de"
    by (cases de) simp
  then show ?thesis by linarith
qed

termination walkDir
  by (relation "measure (\<lambda>x. case x of
         Inl (s, os, ctx, e, dirEntries, rerr) \<Rightarrow> 2 * size_list size dirEntries + 1
       | Inr (s, os, ctx, p, d, i, dirEntries, children) \<Rightarrow> 2 * size_list size dirEntries)")
     (auto simp: size_de_ReadDir)

definition scanSync ::
  "Scanner \<Rightarrow> OS \<Rightarrow> Entry sort_Slice \<Rightarrow> Context \<Rightarrow> string \<Rightarrow> Tree option \<times> error option"
where
  "scanSync s os srt ctx rootPath =
     (case filepath_Abs os rootPath of
        (absRoot, Some err) \<Rightarrow> (None, Some err)
      | (absRoot, None) \<Rightarrow>
          (case os_Stat os absRoot of
             Inl err \<Rightarrow> (None, Some err)
           | Inr info \<Rightarrow>
               if \<not> info_IsDir info then (None, Some (PathError ''scan'' absRoot ErrInvalid))
               else
                 (let rootEntry =
                        Entry (filepath_Base os absRoot) absRoot TypeDir 0 (info_ModTime info)
                          [] 0 [] False;
                      (dirEntries, rerr) = os_ReadDir os absRoot;
                      rootEntry' = walkDir s os ctx rootEntry dirEntries rerr;
                      tree = buildTree srt (time_Now os) rootEntry'
                  in (Some tree, None))))"

definition ScanSync ::
  "Scanner \<Rightarrow> OS \<Rightarrow> Entry sort_Slice \<Rightarrow> Context \<Rightarrow> string \<Rightarrow> Tree option \<times> error option"
where
  "ScanSync s os srt ctx rootPath = scanSync s os srt ctx rootPath"

text \<open>
  \<open>Scan\<close>: the \<^verbatim>\<open>ScanResult{Tree, Error}\<close> that the background task sends on the
  result channel, as a pair.
\<close>

definition Scan ::
  "Scanner \<Rightarrow> OS \<Rightarrow> Entry sort_Slice \<Rightarrow> Context \<Rightarrow> string \<Rightarrow> Tree option \<times> error option"
where
  "Scan s os srt ctx rootPath = scanSync s os srt ctx rootPath"

subsection \<open>scanner.go: LoadDir\<close>

definition LoadDir_child :: "OS \<Rightarrow> string \<Rightarrow> int \<Rightarrow> DirEntry \<Rightarrow> Entry" where
  "LoadDir_child os entryPath entryDepth de =
     (let name = de_Name de;
          path = filepath_Join os entryPath name;
          depth = entryDepth + 1
      in if de_IsSymlink de then
           (case de_Stat de of
              Some info \<Rightarrow>
                Entry name path TypeSymlink (info_Size info) (info_ModTime info) [] depth [] False
            | None \<Rightarrow> Entry name path TypeSymlink 0 0 [] depth [] False)
         else if de_IsDir de then
           (case de_Info de of
              Some info \<Rightarrow> Entry name path TypeDir 0 (info_ModTime info) [] depth [] False
            | None \<Rightarrow> Entry name path TypeDir 0 0 [] depth [] False)
         else if de_IsRegular de then
           (case de_Info de of
              Some info \<Rightarrow>
                Entry name path TypeFile (info_Size info) (info_ModTime info) [] depth [] False
            | None \<Rightarrow> Entry name path TypeFile 0 0 [] depth [] False)
         else Entry name path TypeOther 0 0 [] depth [] False)"

fun LoadDir_loop ::
  "Scanner \<Rightarrow> OS \<Rightarrow> string \<Rightarrow> int \<Rightarrow> DirEntry list \<Rightarrow> Entry list \<Rightarrow> Entry list"
where
  "LoadDir_loop s os p d [] children = children"
| "LoadDir_loop s os p d (de # rest) children =
     (if shouldIgnore s os (de_Name de) then LoadDir_loop s os p d rest children
      else if \<not> showHidden s \<and> HasPrefix (de_Name de) ''.'' then
        LoadDir_loop s os p d rest children
      else LoadDir_loop s os p d rest (children @ [LoadDir_child os p d de]))"

text \<open>The loop \<^verbatim>\<open>for _, c := range children { total += c.Size }\<close>.\<close>

fun LoadDir_total :: "Entry list \<Rightarrow> int64 \<Rightarrow> int64" where
  "LoadDir_total [] tot = tot"
| "LoadDir_total (c # rest) tot = LoadDir_total rest (tot + Size c)"

fun LoadDir :: "Scanner \<Rightarrow> OS \<Rightarrow> Entry sort_Slice \<Rightarrow> Entry \<Rightarrow> Entry \<times> error option" where
  "LoadDir s os srt (Entry n p ty sz mt cs d err ld) =
     (if ty \<noteq> TypeDir \<or> ld then (Entry n p ty sz mt cs d err ld, None)
      else
        (case os_ReadDir os p of
           (dirEntries, Some e) \<Rightarrow> (Entry n p ty sz mt cs d (errorString e) True, Some e)
         | (dirEntries, None) \<Rightarrow>
             (let children = LoadDir_loop s os p d dirEntries [];
                  children' = srt bySizeDesc children;
                  tot = LoadDir_total children' 0
              in (Entry n p ty tot mt children' d err True, None))))"

subsection \<open>Entries inside a tree\<close>

text \<open>
  The caller of \<open>LoadDir\<close> holds a pointer to an entry of the tree. In the model the
  entry is named by its address; \<open>lookup\<close> reads the entry at an address,
  \<open>update_at\<close> writes it, and \<open>LoadDir_at\<close> is \<^verbatim>\<open>LoadDir\<close> called on the entry at that
  address. The other entries of the tree are not touched.
\<close>

type_synonym addr = "nat list"

fun lookup :: "Entry \<Rightarrow> addr \<Rightarrow> Entry option" where
  "lookup e [] = Some e"
| "lookup e (i # a) = (if i < length (Children e) then lookup (Children e ! i) a else None)"

fun update_at :: "Entry \<Rightarrow> addr \<Rightarrow> Entry \<Rightarrow> Entry" where
  "update_at e [] new = new"
| "update_at (Entry n p ty sz mt cs d err ld) (i # a) new =
     (if i < length cs then Entry n p ty sz mt (cs[i := update_at (cs ! i) a new]) d err ld
      else Entry n p ty sz mt cs d err ld)"

definition LoadDir_at ::
  "Scanner \<Rightarrow> OS \<Rightarrow> Entry sort_Slice \<Rightarrow> Entry \<Rightarrow> addr \<Rightarrow> Entry \<times> error option"
where
  "LoadDir_at s os srt r a =
     (case lookup r a of
        None \<Rightarrow> (r, None)
      | Some e \<Rightarrow> (let (e', err) = LoadDir s os srt e in (update_at r a e', err)))"

text \<open>A sequence of \<open>LoadDir\<close> calls, each with the file system as it is at that moment.\<close>

fun LoadDir_seq :: "Scanner \<Rightarrow> Entry sort_Slice \<Rightarrow> Entry \<Rightarrow> (OS \<times> addr) list \<Rightarrow> Entry" where
  "LoadDir_seq s srt r [] = r"
| "LoadDir_seq s srt r ((os, a) # rest) = LoadDir_seq s srt (fst (LoadDir_at s os srt r a)) rest"

subsection \<open>Package layout: options and nodes\<close>

text \<open>
  \<^verbatim>\<open>float32\<close> and \<^verbatim>\<open>float64\<close> are modelled by \<open>real\<close>: the arithmetic is exact,
  rounding, infinities and NaN are not modelled, and the conversions between the two
  types are the identity. Division by zero is \<open>0\<close> in HOL; no statement below evaluates
  a layout on a rectangle with a zero side.
  The colours come from the colour package, which reads the active theme and the clock;
  they are parameters (\<open>Env\<close>), as is \<^verbatim>\<open>sort.Slice\<close> on the areas of a treemap row.
\<close>

type_synonym float32 = real
type_synonym float64 = real
type_synonym Color = "8 word \<times> 8 word \<times> 8 word \<times> 8 word"

record Vector3 =
  X :: float32
  Y :: float32
  Z :: float32

type_synonym Mode = "8 word"

definition ModeMapV :: Mode where "ModeMapV = 0"
definition ModeTreeV :: Mode where "ModeTreeV = 1"

record Options =
  Mode :: Mode
  MaxDepth :: int
  PaddingRatio :: float32
  HeightScale :: float32
  MinHeight :: float32
  MaxHeight :: float32
  ExpandedPaths :: "(string \<rightharpoonup> bool) option"

definition DefaultOptions :: "Mode \<Rightarrow> Options" where
  "DefaultOptions mode =
     \<lparr>Mode = mode, MaxDepth = 0, PaddingRatio = 0.02, HeightScale = 1.0,
      MinHeight = 0.1, MaxHeight = 20.0, ExpandedPaths = None\<rparr>"

datatype Node = Node
  (Node_Entry: Entry)
  (Node_Position: Vector3)
  (Node_Size: Vector3)
  (Node_Color: Color)
  (Node_Children: "Node list")
  (Node_Depth: int)

record Rect2D =
  X :: float32
  Y :: float32
  W :: float32
  H :: float32

record indexedArea =
  index :: nat
  area :: float64

record Env =
  DirColor :: Color
  FileColor :: Color
  ColorFromAge :: "time \<Rightarrow> Color"
  ColorFromSize :: "int64 \<Rightarrow> int64 \<Rightarrow> Color"
  sort_areas :: "indexedArea sort_Slice"

text \<open>
  \<^verbatim>\<open>opts.ExpandedPaths == nil || opts.ExpandedPaths[entry.Path]\<close>: a \<^verbatim>\<open>nil\<close> map
  is \<open>None\<close>, and reading a key that is absent from a map gives \<^verbatim>\<open>false\<close>.
\<close>

definition isExpanded :: "Options \<Rightarrow> string \<Rightarrow> bool" where
  "isExpanded opts path =
     (case ExpandedPaths opts of
        None \<Rightarrow> True
      | Some m \<Rightarrow> (case m path of None \<Rightarrow> False | Some b \<Rightarrow> b))"

subsection \<open>scaleHeight\<close>

definition float64_of_int64 :: "int64 \<Rightarrow> float64" where
  "float64_of_int64 n = real_of_int (sint n)"

definition scaleHeight :: "int64 \<Rightarrow> Options \<Rightarrow> float32" where
  "scaleHeight sz opts =
     (if sz \<le>s 0 then MinHeight opts
      else
        (let sizeKB = float64_of_int64 sz / 1024;
             h = log 2 (sizeKB + 1) * HeightScale opts;
             h = (if h < MinHeight opts then MinHeight opts else h);
             h = (if h > MaxHeight opts then MaxHeight opts else h)
         in h))"

subsection \<open>computeTreeV: the pedestal tree\<close>

definition lpFileSize :: real where "lpFileSize = 0.5"
definition lpFileSpacing :: real where "lpFileSpacing = 0.1"
definition lpFileHeight :: real where "lpFileHeight = 0.1"
definition lpDirSize :: real where "lpDirSize = 0.7"
definition lpDirSpacing :: real where "lpDirSpacing = 0.5"
definition lpDirHeight :: real where "lpDirHeight = 0.1"
definition lpDirDist :: real where "lpDirDist = 5.0"

record dirBounds =
  minX :: float32
  maxX :: float32
  vis_size :: Vector3

definition calcDirSize :: "int \<Rightarrow> float32 \<times> float32" where
  "calcDirSize numFiles =
     (if numFiles = 0 then (lpDirSize, lpDirSize)
      else
        (let filesX = \<lceil>sqrt (real_of_int numFiles)\<rceil>;
             filesY = \<lceil>real_of_int numFiles / real_of_int filesX\<rceil>;
             xsz = real_of_int filesX * lpFileSize + real_of_int (filesX + 1) * lpFileSpacing;
             ysz = real_of_int filesY * lpFileSize + real_of_int (filesY + 1) * lpFileSpacing;
             xsz = (if xsz < lpDirSize then lpDirSize else xsz);
             ysz = (if ysz < lpDirSize then lpDirSize else ysz)
         in (xsz, ysz)))"

text \<open>
  The map \<^verbatim>\<open>bounds\<close> has \<^verbatim>\<open>*fs.Entry\<close> keys; in the model the key of an entry is
  its address in the tree. \<open>calcBounds opts a entry bounds\<close> is the map after
  \<^verbatim>\<open>calcBounds(entry, bounds, opts)\<close>, for the entry at address \<open>a\<close>.
  \<open>calcBounds_subdirs\<close> is the loop over \<^verbatim>\<open>entry.Children\<close> with its running
  \<^verbatim>\<open>childWidth\<close>; \<open>i\<close> is the index of the next child. In the loop \<^verbatim>\<open>bounds[child]\<close>
  is never \<^verbatim>\<open>nil\<close>, since \<open>calcBounds\<close> stores the bounds of every directory it is
  called on (lemma \<open>calcBounds_stores\<close>).
\<close>

definition collapsedBounds :: dirBounds where
  "collapsedBounds =
     \<lparr>minX = - (lpDirSize + lpDirSpacing) / 2, maxX = (lpDirSize + lpDirSpacing) / 2,
      vis_size = \<lparr>Vector3.X = lpDirSize, Y = lpDirHeight, Z = lpDirSize\<rparr>\<rparr>"

fun calcBounds :: "Options \<Rightarrow> addr \<Rightarrow> Entry \<Rightarrow> (addr \<rightharpoonup> dirBounds) \<Rightarrow> (addr \<rightharpoonup> dirBounds)"
  and calcBounds_subdirs ::
    "Options \<Rightarrow> addr \<Rightarrow> nat \<Rightarrow> Entry list \<Rightarrow> (addr \<rightharpoonup> dirBounds) \<Rightarrow> float32 \<Rightarrow>
       (addr \<rightharpoonup> dirBounds) \<times> float32"
where
  "calcBounds opts a (Entry n p ty sz mt cs d err ld) bounds =
     (if ty \<noteq> TypeDir then bounds
      else if \<not> isExpanded opts p then bounds(a \<mapsto> collapsedBounds)
      else
        (let numFiles = int (length (filter (\<lambda>child. Type child \<noteq> TypeDir) cs));
             (dirW, dirD) = calcDirSize numFiles;
             vsize = \<lparr>Vector3.X = dirW, Y = lpDirHeight, Z = dirD\<rparr>
         in if Options.MaxDepth opts > 0 \<and> d \<ge> Options.MaxDepth opts then
              bounds(a \<mapsto> \<lparr>minX = - (dirW + lpDirSpacing) / 2,
                            maxX = (dirW + lpDirSpacing) / 2, vis_size = vsize\<rparr>)
            else
              (let (bounds', childWidth) = calcBounds_subdirs opts a 0 cs bounds 0;
                   width = (if childWidth > dirW then childWidth else dirW)
               in bounds'(a \<mapsto> \<lparr>minX = - (width + lpDirSpacing) / 2,
                                maxX = (width + lpDirSpacing) / 2, vis_size = vsize\<rparr>))))"
| "calcBounds_subdirs opts a i [] bounds childWidth = (bounds, childWidth)"
| "calcBounds_subdirs opts a i (child # rest) bounds childWidth =
     (if Type child = TypeDir then
        (let bounds' = calcBounds opts (a @ [i]) child bounds
         in case bounds' (a @ [i]) of
              Some cb \<Rightarrow>
                calcBounds_subdirs opts a (i + 1) rest bounds' (childWidth + (maxX cb - minX cb))
            | None \<Rightarrow> calcBounds_subdirs opts a (i + 1) rest bounds' childWidth)
      else calcBounds_subdirs opts a (i + 1) rest bounds childWidth)"

text \<open>
  The grid of files on top of a pedestal. \<open>place_maxFileSize\<close> is the loop that finds
  the largest file, \<open>place_files_loop\<close> the loop that creates the file nodes.
  \<^verbatim>\<open>sideFiles\<close> is at least 1 when there is a file (lemma \<open>sideFiles_pos\<close>), so
  \<^verbatim>\<open>i % sideFiles\<close> is \<open>mod\<close>.
\<close>

fun place_maxFileSize :: "Entry list \<Rightarrow> int64 \<Rightarrow> int64" where
  "place_maxFileSize [] maxFileSize = maxFileSize"
| "place_maxFileSize (file # rest) maxFileSize =
     place_maxFileSize rest (if maxFileSize <s Size file then Size file else maxFileSize)"

fun place_files_loop ::
  "Env \<Rightarrow> int \<Rightarrow> float32 \<Rightarrow> float32 \<Rightarrow> int64 \<Rightarrow> int \<Rightarrow> Entry list \<Rightarrow> float32 \<Rightarrow> float32 \<Rightarrow>
     Node list \<Rightarrow> Node list"
where
  "place_files_loop env sideFiles fStartX fStartY maxFileSize i [] fPosX fPosZ nodes = nodes"
| "place_files_loop env sideFiles fStartX fStartY maxFileSize i (file # rest) fPosX fPosZ nodes =
     (let col = i mod sideFiles;
          fileColor = ColorFromSize env (Size file) maxFileSize;
          fileNode = Node file \<lparr>Vector3.X = fPosX, Y = fStartY, Z = fPosZ\<rparr>
                       \<lparr>Vector3.X = lpFileSize, Y = lpFileHeight, Z = lpFileSize\<rparr>
                       fileColor [] (Depth file);
          fPosX' = fPosX + (lpFileSize + lpFileSpacing);
          (fPosX'', fPosZ') =
            (if col = sideFiles - 1 then (fStartX, fPosZ + (lpFileSize + lpFileSpacing))
             else (fPosX', fPosZ))
      in place_files_loop env sideFiles fStartX fStartY maxFileSize (i + 1) rest fPosX'' fPosZ'
           (nodes @ [fileNode]))"

definition place_files :: "Env \<Rightarrow> Vector3 \<Rightarrow> dirBounds \<Rightarrow> Entry list \<Rightarrow> Node list" where
  "place_files env pos b files =
     (let sideFiles = \<lceil>sqrt (real (length files))\<rceil>;
          offs = lpFileSize / 2 + lpFileSpacing;
          fStartX = Vector3.X pos - Vector3.X (vis_size b) / 2 + offs;
          fStartZ = Z pos - Z (vis_size b) / 2 + offs;
          fStartY = Vector3.Y pos + Vector3.Y (vis_size b) / 2 + lpFileHeight / 2;
          maxFileSize = place_maxFileSize files 0
      in place_files_loop env sideFiles fStartX fStartY maxFileSize 0 files fStartX fStartZ [])"

text \<open>
  \<open>place env opts bounds a entry pos\<close> is \<^verbatim>\<open>place(entry, pos, bounds, opts)\<close> for the
  entry at address \<open>a\<close>. \<open>place_dirs\<close> is the loop over \<^verbatim>\<open>dirs\<close>, the directories
  among \<^verbatim>\<open>entry.Children\<close>: it walks the children with their indices and skips the
  entries that are not directories.
\<close>

fun place :: "Env \<Rightarrow> Options \<Rightarrow> (addr \<rightharpoonup> dirBounds) \<Rightarrow> addr \<Rightarrow> Entry \<Rightarrow> Vector3 \<Rightarrow> Node option"
  and place_dirs ::
    "Env \<Rightarrow> Options \<Rightarrow> (addr \<rightharpoonup> dirBounds) \<Rightarrow> addr \<Rightarrow> Vector3 \<Rightarrow> dirBounds \<Rightarrow> nat \<Rightarrow>
       Entry list \<Rightarrow> float32 \<Rightarrow> Node list \<Rightarrow> Node list"
where
  "place env opts bounds a (Entry n p ty sz mt cs d err ld) pos =
     (if Options.MaxDepth opts > 0 \<and> d > Options.MaxDepth opts then None
      else
        (case bounds a of
           None \<Rightarrow>
             Some (Node (Entry n p ty sz mt cs d err ld) pos
                     \<lparr>Vector3.X = lpFileSize, Y = lpFileHeight, Z = lpFileSize\<rparr>
                     (FileColor env) [] d)
         | Some b \<Rightarrow>
             if ty \<noteq> TypeDir then
               Some (Node (Entry n p ty sz mt cs d err ld) pos (vis_size b) (DirColor env) [] d)
             else if \<not> isExpanded opts p then
               Some (Node (Entry n p ty sz mt cs d err ld) pos (vis_size b) (DirColor env) [] d)
             else
               (let files = filter (\<lambda>child. Type child \<noteq> TypeDir) cs;
                    dirs = filter (\<lambda>child. Type child = TypeDir) cs;
                    fileNodes = (if length files > 0 then place_files env pos b files else []);
                    dirNodes =
                      (if length dirs > 0 \<and>
                          (Options.MaxDepth opts = 0 \<or> d < Options.MaxDepth opts)
                       then place_dirs env opts bounds a pos b 0 cs
                              (minX b - lpDirSpacing / 2) []
                       else [])
                in Some (Node (Entry n p ty sz mt cs d err ld) pos (vis_size b) (DirColor env)
                           (fileNodes @ dirNodes) d))))"
| "place_dirs env opts bounds a pos b i [] x nodes = nodes"
| "place_dirs env opts bounds a pos b i (child # rest) x nodes =
     (if Type child \<noteq> TypeDir then place_dirs env opts bounds a pos b (i + 1) rest x nodes
      else
        (case bounds (a @ [i]) of
           None \<Rightarrow> place_dirs env opts bounds a pos b (i + 1) rest x nodes
         | Some cb \<Rightarrow>
             (let width = maxX cb - minX cb;
                  childPos = \<lparr>Vector3.X = Vector3.X pos + x + width / 2,
                              Y = Vector3.Y pos,
                              Z = Z pos - (Z (vis_size b) / 2 + lpDirDist)\<rparr>;
                  nodes' = (case place env opts bounds (a @ [i]) child childPos of
                              Some childNode \<Rightarrow> nodes @ [childNode]
                            | None \<Rightarrow> nodes)
              in place_dirs env opts bounds a pos b (i + 1) rest (x + width + lpDirSpacing)
                   nodes')))"

definition computeTreeV :: "Env \<Rightarrow> Tree \<Rightarrow> Options \<Rightarrow> Node option" where
  "computeTreeV env tree opts =
     (let bounds = calcBounds opts [] (Root tree) Map.empty
      in place env opts bounds [] (Root tree)
           \<lparr>Vector3.X = 0, Y = lpDirHeight / 2, Z = 0\<rparr>)"

subsection \<open>mapv.go: the squarified treemap\<close>

definition MaxFloat64 :: float64 where
  "MaxFloat64 = (2 - 1 / 2 ^ 52) * 2 ^ 1023"

text \<open>The loop of \<open>worstAspectRatio\<close> over the items of the row.\<close>

fun worstAspectRatio_loop :: "float64 \<Rightarrow> float64 \<Rightarrow> indexedArea list \<Rightarrow> float64 \<Rightarrow> float64" where
  "worstAspectRatio_loop s2 rowArea [] worst = worst"
| "worstAspectRatio_loop s2 rowArea (item # rest) worst =
     (let r1 = (s2 * area item) / (rowArea * rowArea);
          r2 = (rowArea * rowArea) / (s2 * area item);
          ratio = max r1 r2
      in worstAspectRatio_loop s2 rowArea rest (if ratio > worst then ratio else worst))"

definition worstAspectRatio :: "indexedArea list \<Rightarrow> float64 \<Rightarrow> float32 \<Rightarrow> float64" where
  "worstAspectRatio row rowArea shortSide =
     (if length row = 0 \<or> shortSide = 0 \<or> rowArea = 0 then MaxFloat64
      else worstAspectRatio_loop (shortSide * shortSide) rowArea row 0)"

text \<open>
  \<open>layoutRow\<close> writes the rectangles of the row into \<^verbatim>\<open>rects\<close> and returns the
  remaining rectangle; the model returns both. The two loops over the row are
  \<open>layoutRow_horizontal\<close> and \<open>layoutRow_vertical\<close>. \<open>squarify\<close> numbers the
  items from 0 to \<^verbatim>\<open>len(rects) - 1\<close> (lemma \<open>squarify_index_below\<close>), so every
  \<^verbatim>\<open>rects[item.index]\<close> is in range.
\<close>

fun layoutRow_horizontal ::
  "float32 \<Rightarrow> float32 \<Rightarrow> indexedArea list \<Rightarrow> float32 \<Rightarrow> Rect2D list \<Rightarrow> Rect2D list"
where
  "layoutRow_horizontal rowHeight rectY [] x rects = rects"
| "layoutRow_horizontal rowHeight rectY (item # rest) x rects =
     (let w = area item / rowHeight
      in layoutRow_horizontal rowHeight rectY rest (x + w)
           (rects[index item := \<lparr>Rect2D.X = x, Y = rectY, W = w, H = rowHeight\<rparr>]))"

fun layoutRow_vertical ::
  "float32 \<Rightarrow> float32 \<Rightarrow> indexedArea list \<Rightarrow> float32 \<Rightarrow> Rect2D list \<Rightarrow> Rect2D list"
where
  "layoutRow_vertical rowWidth rectX [] y rects = rects"
| "layoutRow_vertical rowWidth rectX (item # rest) y rects =
     (let h = area item / rowWidth
      in layoutRow_vertical rowWidth rectX rest (y + h)
           (rects[index item := \<lparr>Rect2D.X = rectX, Y = y, W = rowWidth, H = h\<rparr>]))"

definition layoutRow ::
  "indexedArea list \<Rightarrow> float64 \<Rightarrow> Rect2D \<Rightarrow> Rect2D list \<Rightarrow> float32 \<Rightarrow> Rect2D list \<times> Rect2D"
where
  "layoutRow row rowArea rect rects shortSide =
     (if length row = 0 then (rects, rect)
      else if W rect < H rect then
        (let rowHeight = rowArea / W rect
         in (layoutRow_horizontal rowHeight (Rect2D.Y rect) row (Rect2D.X rect) rects,
             \<lparr>Rect2D.X = Rect2D.X rect, Y = Rect2D.Y rect + rowHeight,
              W = W rect, H = H rect - rowHeight\<rparr>))
      else
        (let rowWidth = rowArea / H rect
         in (layoutRow_vertical rowWidth (Rect2D.X rect) row (Rect2D.Y rect) rects,
             \<lparr>Rect2D.X = Rect2D.X rect + rowWidth, Y = Rect2D.Y rect,
              W = W rect - rowWidth, H = H rect\<rparr>)))"

text \<open>
  The inner loop of \<open>squarify\<close>: it grows the row while the worst aspect ratio improves
  and returns the row, its area and the items of \<^verbatim>\<open>sorted\<close> not yet placed.
\<close>

fun squarify_row ::
  "float32 \<Rightarrow> indexedArea list \<Rightarrow> float64 \<Rightarrow> indexedArea list \<Rightarrow>
     indexedArea list \<times> float64 \<times> indexedArea list"
where
  "squarify_row shortSide row rowArea [] = (row, rowArea, [])"
| "squarify_row shortSide row rowArea (item # rest) =
     (let testArea = rowArea + area item
      in if worstAspectRatio row rowArea shortSide
              \<le> worstAspectRatio (row @ [item]) testArea shortSide
         then (row, rowArea, item # rest)
         else squarify_row shortSide (row @ [item]) (rowArea + area item) rest)"

lemma squarify_row_length:
  "squarify_row shortSide row rowArea items = (row', rowArea', items') \<Longrightarrow>
     length items' \<le> length items"
proof (induction items arbitrary: row rowArea)
  case Nil
  then show ?case by simp
next
  case (Cons item rest)
  show ?case
  proof (cases "worstAspectRatio row rowArea shortSide
                  \<le> worstAspectRatio (row @ [item]) (rowArea + area item) shortSide")
    case True
    with Cons.prems show ?thesis by (simp add: Let_def)
  next
    case False
    with Cons.prems
    have "squarify_row shortSide (row @ [item]) (rowArea + area item) rest
            = (row', rowArea', items')"
      by (simp add: Let_def)
    from Cons.IH[OF this] show ?thesis by simp
  qed
qed

text \<open>The outer loop of \<open>squarify\<close> over \<^verbatim>\<open>sorted[i:]\<close>.\<close>

function squarify_loop :: "indexedArea list \<Rightarrow> Rect2D \<Rightarrow> Rect2D list \<Rightarrow> Rect2D list" where
  "squarify_loop [] remaining rects = rects"
| "squarify_loop (item # rest) remaining rects =
     (let shortSide = (if H remaining < W remaining then H remaining else W remaining)
      in case squarify_row shortSide [item] (area item) rest of
           (row, rowArea, rest') \<Rightarrow>
             (case layoutRow row rowArea remaining rects shortSide of
                (rects', remaining') \<Rightarrow> squarify_loop rest' remaining' rects'))"
  by pat_completeness auto

termination squarify_loop
  by (relation "measure (\<lambda>(items, remaining, rects). length items)")
     (auto dest: squarify_row_length [OF sym] simp: less_Suc_eq_le)

definition squarify_weight :: "Entry \<Rightarrow> float64" where
  "squarify_weight c = max (float64_of_int64 (Size c)) 1"

fun squarify_totalSize :: "Entry list \<Rightarrow> float64 \<Rightarrow> float64" where
  "squarify_totalSize [] totalSize = totalSize"
| "squarify_totalSize (c # rest) totalSize =
     squarify_totalSize rest (totalSize + squarify_weight c)"

definition squarify ::
  "indexedArea sort_Slice \<Rightarrow> Entry list \<Rightarrow> Rect2D \<Rightarrow> int64 \<Rightarrow> Rect2D list"
where
  "squarify srt children rect parentSize =
     (if length children = 0 then []
      else
        (let totalSize = squarify_totalSize children 0;
             totalArea = W rect * H rect;
             areas = map (\<lambda>c. (squarify_weight c / totalSize) * totalArea) children;
             sorted = srt (\<lambda>a b. area a > area b)
                        (map (\<lambda>(i, a). \<lparr>index = i, area = a\<rparr>) (enumerate 0 areas));
             rects = replicate (length children) \<lparr>Rect2D.X = 0, Y = 0, W = 0, H = 0\<rparr>
         in squarify_loop sorted rect rects))"

text \<open>
  \<open>raiseChildren\<close> adds the offset to the height of every node below the given one;
  \<open>raiseChildren_loop\<close> is its loop over \<^verbatim>\<open>node.Children\<close>.
\<close>

fun raiseChildren :: "Node \<Rightarrow> float32 \<Rightarrow> Node"
  and raiseChildren_loop :: "Node list \<Rightarrow> float32 \<Rightarrow> Node list"
where
  "raiseChildren (Node e pos sz col children d) offset =
     Node e pos sz col (raiseChildren_loop children offset) d"
| "raiseChildren_loop [] offset = []"
| "raiseChildren_loop (Node e pos sz col children d # rest) offset =
     raiseChildren (Node e (pos\<lparr>Vector3.Y := Vector3.Y pos + offset\<rparr>) sz col children d) offset
       # raiseChildren_loop rest offset"

definition sizedChildren_of :: "Entry list \<Rightarrow> Entry list" where
  "sizedChildren_of cs = filter (\<lambda>child. 0 <s Size child) cs @ filter (\<lambda>child. Size child = 0) cs"

lemma size_list_filter_le: "size_list f (filter P xs) \<le> size_list f xs"
  by (induction xs) auto

lemma size_sizedChildren_of: "size_list size (sizedChildren_of cs) \<le> size_list size cs"
proof (induction cs)
  case Nil
  then show ?case by (simp add: sizedChildren_of_def)
next
  case (Cons c cs)
  then show ?case by (auto simp: sizedChildren_of_def)
qed

text \<open>
  \<open>layoutMapVNode\<close>, with \<open>layoutMapVNode_children\<close> for its loop over
  \<^verbatim>\<open>sizedChildren\<close>. The treemap never reads \<^verbatim>\<open>opts.ExpandedPaths\<close>.
\<close>

function (sequential) layoutMapVNode :: "Env \<Rightarrow> Options \<Rightarrow> Entry \<Rightarrow> Rect2D \<Rightarrow> int \<Rightarrow> Node option"
  and layoutMapVNode_children ::
    "Env \<Rightarrow> Options \<Rightarrow> int \<Rightarrow> float32 \<Rightarrow> Rect2D list \<Rightarrow> nat \<Rightarrow> Entry list \<Rightarrow> Node list \<Rightarrow>
       Node list"
where
  "layoutMapVNode env opts (Entry n p ty sz mt cs d err ld) rect depth =
     (if Options.MaxDepth opts > 0 \<and> depth > Options.MaxDepth opts then None
      else
        (let height = scaleHeight sz opts;
             nodeColor = (if ty \<noteq> TypeDir then ColorFromAge env mt else DirColor env);
             position = \<lparr>Vector3.X = Rect2D.X rect + W rect / 2, Y = height / 2,
                          Z = Rect2D.Y rect + H rect / 2\<rparr>;
             nsize = \<lparr>Vector3.X = W rect * (1 - PaddingRatio opts), Y = height,
                       Z = H rect * (1 - PaddingRatio opts)\<rparr>;
             children =
               (if ty = TypeDir \<and> length cs > 0 then
                  (let padding = W rect * PaddingRatio opts;
                       innerRect = \<lparr>Rect2D.X = Rect2D.X rect + padding,
                                    Y = Rect2D.Y rect + padding,
                                    W = W rect - 2 * padding, H = H rect - 2 * padding\<rparr>;
                       sizedChildren = sizedChildren_of cs
                   in if length sizedChildren > 0 then
                        (let rects = squarify (sort_areas env) sizedChildren innerRect sz
                         in layoutMapVNode_children env opts depth height rects 0
                              sizedChildren [])
                      else [])
                else [])
         in Some (Node (Entry n p ty sz mt cs d err ld) position nsize nodeColor children depth)))"
| "layoutMapVNode_children env opts depth height rects i [] nodes = nodes"
| "layoutMapVNode_children env opts depth height rects i (child # rest) nodes =
     (if i < length rects then
        (case layoutMapVNode env opts child (rects ! i) (depth + 1) of
           Some (Node e pos nsz col children d) \<Rightarrow>
             layoutMapVNode_children env opts depth height rects (i + 1) rest
               (nodes @ [raiseChildren
                           (Node e (pos\<lparr>Vector3.Y := Vector3.Y pos + height\<rparr>) nsz col children d)
                           height])
         | None \<Rightarrow> layoutMapVNode_children env opts depth height rects (i + 1) rest nodes)
      else layoutMapVNode_children env opts depth height rects (i + 1) rest nodes)"
  by pat_completeness auto

termination layoutMapVNode
  by (relation "measure (\<lambda>x. case x of
         Inl (env, opts, e, rect, depth) \<Rightarrow> 2 * size e
       | Inr (env, opts, depth, height, rects, i, children, nodes) \<Rightarrow>
           2 * size_list size children + 1)")
     (auto simp: less_Suc_eq_le size_sizedChildren_of)

definition computeMapV :: "Env \<Rightarrow> Tree \<Rightarrow> Options \<Rightarrow> Node option" where
  "computeMapV env tree opts =
     (let totalArea = 30.0;
          rootRect = \<lparr>Rect2D.X = - totalArea / 2, Y = - totalArea / 2,
                      W = totalArea, H = totalArea\<rparr>
      in layoutMapVNode env opts (Root tree) rootRect 0)"

text \<open>
  \<open>Compute\<close>, with \<open>None\<close> for a \<^verbatim>\<open>nil\<close> tree. A \<open>Tree\<close> of the model always has a
  root, so the test \<^verbatim>\<open>tree.Root == nil\<close> never holds.
\<close>

definition Compute :: "Env \<Rightarrow> Tree option \<Rightarrow> Options \<Rightarrow> Node option" where
  "Compute env tree opts =
     (case tree of
        None \<Rightarrow> None
      | Some t \<Rightarrow>
          if Mode opts = ModeMapV then computeMapV env t opts
          else if Mode opts = ModeTreeV then computeTreeV env t opts
          else computeMapV env t opts)"

section \<open>Properties\<close>

subsection \<open>Predicates on trees\<close>

text \<open>
  \<open>sizes_exact e\<close>: every directory reached from \<open>e\<close> through directories has a
  \<^verbatim>\<open>Size\<close> equal to the \<^verbatim>\<open>int64\<close> sum of the sizes of its children.
\<close>

fun sizes_exact :: "Entry \<Rightarrow> bool" where
  "sizes_exact (Entry n p ty sz mt cs d err ld) =
     (ty = TypeDir \<longrightarrow> sz = sum_list (map Size cs) \<and> (\<forall>c \<in> set cs. sizes_exact c))"

text \<open>
  \<open>sizes_exact_int e\<close>: the same with the sizes read as integers, for every directory
  whose children's sizes add up to a value that an \<^verbatim>\<open>int64\<close> holds.
\<close>

fun sizes_exact_int :: "Entry \<Rightarrow> bool" where
  "sizes_exact_int (Entry n p ty sz mt cs d err ld) =
     (ty = TypeDir \<longrightarrow>
        (- (2 ^ 63) \<le> sum_list (map (\<lambda>c. sint (Size c)) cs) \<and>
         sum_list (map (\<lambda>c. sint (Size c)) cs) < 2 ^ 63 \<longrightarrow>
           sint sz = sum_list (map (\<lambda>c. sint (Size c)) cs)) \<and>
        (\<forall>c \<in> set cs. sizes_exact_int c))"

text \<open>
  \<open>children_sorted e\<close>: the children of every such directory are in non-increasing
  order of \<^verbatim>\<open>Size\<close>.
\<close>

fun children_sorted :: "Entry \<Rightarrow> bool" where
  "children_sorted (Entry n p ty sz mt cs d err ld) =
     (ty = TypeDir \<longrightarrow>
        sorted_wrt (\<lambda>a b. Size b \<le>s Size a) cs \<and> (\<forall>c \<in> set cs. children_sorted c))"


text \<open>
  \<open>depths_ok e\<close>: every child below \<open>e\<close> is one level deeper than its parent.
\<close>

fun depths_ok :: "Entry \<Rightarrow> bool" where
  "depths_ok (Entry n p ty sz mt cs d err ld) =
     (\<forall>c \<in> set cs. Depth c = d + 1 \<and> depths_ok c)"

text \<open>The root entry that \<open>scanSync\<close> creates before the walk.\<close>

definition rootEntry_of :: "OS \<Rightarrow> string \<Rightarrow> FileInfo \<Rightarrow> Entry" where
  "rootEntry_of os absRoot info =
     Entry (filepath_Base os absRoot) absRoot TypeDir 0 (info_ModTime info) [] 0 [] False"

text \<open>
  \<open>collapsed_bounds_ok opts r bs\<close>: every bound that the map \<open>bs\<close> holds for a
  collapsed directory of the tree \<open>r\<close> is the fixed minimum footprint.
\<close>

definition collapsed_bounds_ok :: "Options \<Rightarrow> Entry \<Rightarrow> (addr \<rightharpoonup> dirBounds) \<Rightarrow> bool" where
  "collapsed_bounds_ok opts r bs \<longleftrightarrow>
     (\<forall>a D b. bs a = Some b \<longrightarrow> lookup r a = Some D \<longrightarrow> Type D = TypeDir \<longrightarrow>
        \<not> isExpanded opts (Path D) \<longrightarrow> b = collapsedBounds)"

text \<open>
  \<open>collapsed_is_placeholder opts node\<close>: in the layout below \<open>node\<close>, every node of
  a directory that is not expanded has the fixed minimum size and no child nodes.
\<close>

definition placeholderSize :: Vector3 where
  "placeholderSize = \<lparr>Vector3.X = lpDirSize, Y = lpDirHeight, Z = lpDirSize\<rparr>"

fun collapsed_is_placeholder :: "Options \<Rightarrow> Node \<Rightarrow> bool" where
  "collapsed_is_placeholder opts (Node e pos sz col children d) =
     ((Type e = TypeDir \<and> \<not> isExpanded opts (Path e) \<longrightarrow>
         sz = placeholderSize \<and> children = []) \<and>
      (\<forall>c \<in> set children. collapsed_is_placeholder opts c))"

text \<open>
  The words of the height formula: \<open>sizeKB\<close> is the size in units of 1024 bytes and
  \<open>clamp x lo hi\<close> bounds \<open>x\<close> below by \<open>lo\<close> and above by \<open>hi\<close>.
\<close>

definition sizeKB :: "int64 \<Rightarrow> float64" where
  "sizeKB sz = float64_of_int64 sz / 1024"

definition clamp :: "real \<Rightarrow> real \<Rightarrow> real \<Rightarrow> real" where
  "clamp x lo hi = max lo (min hi x)"

subsection \<open>Example data\<close>

text \<open>The tree record that \<open>buildTree\<close> starts from, with the zero time.\<close>

definition emptyTree :: "Entry \<Rightarrow> Tree" where
  "emptyTree r = \<lparr>Root = r, ScannedAt = 0, TotalSize = 0, FileCount = 0,
                  DirCount = 0, MaxDepth = 0, Errors = []\<rparr>"

definition ex_fileA :: Entry where
  "ex_fileA = Entry ''a'' ''/r/a'' TypeFile 5 0 [] 1 [] False"

definition ex_fileB :: Entry where
  "ex_fileB = Entry ''b'' ''/r/b'' TypeFile 5 0 [] 1 [] False"

definition ex_fileC :: Entry where
  "ex_fileC = Entry ''c'' ''/r/d/c'' TypeFile 300 0 [] 2 [] False"

definition ex_dirD :: Entry where
  "ex_dirD = Entry ''d'' ''/r/d'' TypeDir 0 0 [ex_fileC] 1 [] True"

definition ex_root :: Entry where
  "ex_root = Entry ''r'' ''/r'' TypeDir 0 0 [ex_fileA, ex_fileB, ex_dirD] 0 [] True"


text \<open>A small file system: \<^verbatim>\<open>/r\<close> holds \<^verbatim>\<open>.git\<close>, the files \<^verbatim>\<open>a\<close> and \<^verbatim>\<open>b\<close>, the directory
  \<^verbatim>\<open>d\<close> with the file \<^verbatim>\<open>c\<close>, and the directory \<^verbatim>\<open>x\<close> that cannot be read.\<close>

definition ex_fileInfo :: "int64 \<Rightarrow> FileInfo" where
  "ex_fileInfo sz = \<lparr>info_Size = sz, info_ModTime = 3, info_IsDir = False\<rparr>"

definition ex_dirInfo :: FileInfo where
  "ex_dirInfo = \<lparr>info_Size = 4096, info_ModTime = 3, info_IsDir = True\<rparr>"

definition ex_de_a :: DirEntry where
  "ex_de_a = DirEntry ''a'' False False True (Some (ex_fileInfo 5)) None None [] None"

definition ex_de_b :: DirEntry where
  "ex_de_b = DirEntry ''b'' False False True (Some (ex_fileInfo 5)) None None [] None"

definition ex_de_c :: DirEntry where
  "ex_de_c = DirEntry ''c'' False False True (Some (ex_fileInfo 300)) None None [] None"

definition ex_de_d :: DirEntry where
  "ex_de_d = DirEntry ''d'' False True False (Some ex_dirInfo) None None [ex_de_c] None"

definition ex_de_x :: DirEntry where
  "ex_de_x = DirEntry ''x'' False True False (Some ex_dirInfo) None None []
               (Some (Errno ''permission denied''))"

definition ex_de_git :: DirEntry where
  "ex_de_git = DirEntry ''.git'' False True False (Some ex_dirInfo) None None [ex_de_c] None"

definition ex_os :: OS where
  "ex_os =
     \<lparr>filepath_Abs = (\<lambda>p. if p = ''rel'' then ([], Some (Errno ''getwd: no such file or directory''))
                          else (p, None)),
      os_Stat = (\<lambda>p. if p = ''/r'' then Inr ex_dirInfo
                     else if p = ''/r/a'' then Inr (ex_fileInfo 5)
                     else Inl (Errno ''no such file or directory'')),
      os_ReadDir = (\<lambda>p. if p = ''/r'' then ([ex_de_git, ex_de_a, ex_de_b, ex_de_d, ex_de_x], None)
                        else if p = ''/r/d'' then ([ex_de_c], None)
                        else ([], Some (Errno ''permission denied''))),
      filepath_Join = (\<lambda>dir name. dir @ ''/'' @ name),
      filepath_Base = (\<lambda>p. drop 1 p),
      strings_EqualFold = (\<lambda>a b. a = b),
      filepath_Match = (\<lambda>pattern name. pattern = name),
      runtime_NumCPU = 4,
      time_Now = 7\<rparr>"

definition ex_scanner :: Scanner where
  "ex_scanner = NewScanner ex_os
     \<lparr>WorkerCount = 0, MaxDepth = 0, IgnorePatterns = [], ShowHidden = False\<rparr>"

definition ex_lazy :: Entry where
  "ex_lazy = Entry ''r'' ''/r'' TypeDir 10 3
     [Entry ''a'' ''/r/a'' TypeFile 5 3 [] 1 [] False,
      Entry ''d'' ''/r/d'' TypeDir 0 3 [] 1 [] False,
      Entry ''b'' ''/r/b'' TypeFile 5 3 [] 1 [] False,
      Entry ''x'' ''/r/x'' TypeDir 0 3 [] 1 [] False] 0 [] True"

text \<open>Colours and options for the layout examples.\<close>

definition ex_env :: Env where
  "ex_env = \<lparr>DirColor = (60, 120, 220, 255), FileColor = (180, 40, 40, 255),
             ColorFromAge = (\<lambda>modTime. (80, 200, 80, 255)),
             ColorFromSize = (\<lambda>sz maxSize. (200, 160, 60, 255)),
             sort_areas = insertionSort\<rparr>"

text \<open>The tree of \<^verbatim>\<open>/r\<close> after a scan, and the same tree with other contents in \<^verbatim>\<open>/r/d\<close>.\<close>

definition ex_dir_d :: Entry where
  "ex_dir_d = Entry ''d'' ''/r/d'' TypeDir 300 3
     [Entry ''c'' ''/r/d/c'' TypeFile 300 3 [] 2 [] False] 1 [] True"

definition ex_dir_d' :: Entry where
  "ex_dir_d' = Entry ''d'' ''/r/d'' TypeDir 9000 3
     [Entry ''c1'' ''/r/d/c1'' TypeFile 4000 3 [] 2 [] False,
      Entry ''c2'' ''/r/d/c2'' TypeFile 5000 3 [] 2 [] False,
      Entry ''e'' ''/r/d/e'' TypeDir 0 3 [] 2 [] True] 1 [] True"

definition ex_scanned :: Entry where
  "ex_scanned = Entry ''r'' ''/r'' TypeDir 305 3
     [ex_dir_d, Entry ''a'' ''/r/a'' TypeFile 5 3 [] 1 [] False] 0 [] True"

definition ex_treev_opts :: Options where
  "ex_treev_opts = (DefaultOptions ModeTreeV)\<lparr>ExpandedPaths := Some [''/r'' \<mapsto> True]\<rparr>"

definition ex_mapv_opts :: Options where
  "ex_mapv_opts = (DefaultOptions ModeMapV)\<lparr>ExpandedPaths := Some Map.empty\<rparr>"

definition ex_mapv_root :: Entry where
  "ex_mapv_root = Entry ''r'' ''/r'' TypeDir 1024 3
     [Entry ''a'' ''/r/a'' TypeFile 1024 3 [] 1 [] False] 0 [] True"

section \<open>Proofs\<close>

subsection \<open>The contract of sort.Slice\<close>

lemma mset_insertLess: "mset (insertLess lt x ys) = add_mset x (mset ys)"
  by (induction ys) auto

lemma set_insertLess: "set (insertLess lt x ys) = insert x (set ys)"
  by (induction ys) auto

lemma sorted_insertLess:
  assumes "transitive_ordering lt" "sorted_wrt (\<lambda>a b. \<not> lt b a) ys"
  shows "sorted_wrt (\<lambda>a b. \<not> lt b a) (insertLess lt x ys)"
  using assms(2)
proof (induction ys)
  case Nil
  then show ?case by simp
next
  case (Cons y ys)
  have asym: "\<And>a b. lt a b \<Longrightarrow> \<not> lt b a"
    using assms(1) unfolding transitive_ordering_def by blast
  have ntr: "\<And>a b c. \<not> lt a b \<Longrightarrow> \<not> lt b c \<Longrightarrow> \<not> lt a c"
    using assms(1) unfolding transitive_ordering_def by blast
  show ?case
  proof (cases "lt x y")
    case True
    have "\<forall>z\<in>set ys. \<not> lt z x"
    proof
      fix z assume "z \<in> set ys"
      then have "\<not> lt z y" using Cons.prems by auto
      moreover have "\<not> lt y x" using True asym by blast
      ultimately show "\<not> lt z x" using ntr by blast
    qed
    then show ?thesis using True Cons.prems asym by auto
  next
    case False
    then show ?thesis using Cons by (auto simp: set_insertLess)
  qed
qed

lemma insertionSort_foldl:
  "transitive_ordering lt \<Longrightarrow> sorted_wrt (\<lambda>a b. \<not> lt b a) acc \<Longrightarrow>
   mset (foldl (\<lambda>acc x. insertLess lt x acc) acc xs) = mset acc + mset xs \<and>
   sorted_wrt (\<lambda>a b. \<not> lt b a) (foldl (\<lambda>acc x. insertLess lt x acc) acc xs)"
  by (induction xs arbitrary: acc) (auto simp: mset_insertLess sorted_insertLess)

lemma sorts_Slice_insertionSort: "sorts_Slice insertionSort"
  unfolding sorts_Slice_def insertionSort_def
  using insertionSort_foldl[where acc="[]"] by fastforce


lemma transitive_ordering_bySizeDesc: "transitive_ordering bySizeDesc"
  unfolding transitive_ordering_def bySizeDesc_def
  by (auto simp: word_sless_alt)

lemma sorts_SliceD:
  "sorts_Slice srt \<Longrightarrow> transitive_ordering lt \<Longrightarrow>
     mset (srt lt xs) = mset xs \<and> sorted_wrt (\<lambda>a b. \<not> lt b a) (srt lt xs)"
  unfolding sorts_Slice_def by blast

lemma sort_bySizeDesc:
  assumes "sorts_Slice srt"
  shows "mset (srt bySizeDesc xs) = mset xs"
    and "set (srt bySizeDesc xs) = set xs"
    and "sum_list (map Size (srt bySizeDesc xs)) = sum_list (map Size xs)"
    and "sorted_wrt (\<lambda>a b. Size b \<le>s Size a) (srt bySizeDesc xs)"
proof -
  have m: "mset (srt bySizeDesc xs) = mset xs"
    and s: "sorted_wrt (\<lambda>a b. \<not> bySizeDesc b a) (srt bySizeDesc xs)"
    using sorts_SliceD[OF assms transitive_ordering_bySizeDesc] by auto
  show "mset (srt bySizeDesc xs) = mset xs" by (rule m)
  show "set (srt bySizeDesc xs) = set xs" using m by (rule mset_eq_setD)
  have "mset (map Size (srt bySizeDesc xs)) = mset (map Size xs)" using m by (metis mset_map)
  then show "sum_list (map Size (srt bySizeDesc xs)) = sum_list (map Size xs)"
    by (metis sum_mset_sum_list)
  have "(\<lambda>a b. \<not> bySizeDesc b a) = (\<lambda>a b. Size b \<le>s Size a)"
    by (auto simp: bySizeDesc_def fun_eq_iff word_sless_alt word_sle_eq)
  then show "sorted_wrt (\<lambda>a b. Size b \<le>s Size a) (srt bySizeDesc xs)" using s by simp
qed

subsection \<open>The aggregator\<close>

text \<open>
  The result of the loop over the children: the running total has grown by the sizes
  of the aggregated children, and every aggregated child has exact sizes and sorted
  children.
\<close>

lemma aggregate_props:
  "sorts_Slice srt \<Longrightarrow>
     sizes_exact (snd (aggregate srt t e)) \<and> children_sorted (snd (aggregate srt t e))"
  "sorts_Slice srt \<Longrightarrow>
     (case aggregate_children srt t cs tot of (t', cs', tot') \<Rightarrow>
           tot' = tot + sum_list (map Size cs') \<and>
           (\<forall>c \<in> set cs'. sizes_exact c \<and> children_sorted c))"
proof (induction srt t e and srt t cs tot rule: aggregate_aggregate_children.induct)
  case (1 srt t n p ty sz mt cs d err ld)
  show ?case
  proof (cases "ty = TypeDir")
    case True
    obtain t'' cs' tot' where ac:
      "aggregate_children srt (t\<lparr>DirCount := DirCount t + 1\<rparr>) cs 0 = (t'', cs', tot')"
      by (cases "aggregate_children srt (t\<lparr>DirCount := DirCount t + 1\<rparr>) cs 0") auto
    from "1.IH"[OF True refl "1.prems"] ac
    have ih: "tot' = sum_list (map Size cs')" "\<forall>c \<in> set cs'. sizes_exact c \<and> children_sorted c"
      by auto
    have e: "snd (aggregate srt t (Entry n p ty sz mt cs d err ld)) =
               Entry n p ty tot' mt (srt bySizeDesc cs') d err ld"
      using True ac by (simp add: Let_def)
    show ?thesis
      unfolding e using ih sort_bySizeDesc[OF "1.prems"] by simp
  next
    case False
    then show ?thesis by (simp add: Let_def)
  qed
next
  case (2 srt t totalSize)
  then show ?case by simp
next
  case (3 srt t child rest totalSize)
  obtain t' child' where a: "aggregate srt t child = (t', child')"
    by (cases "aggregate srt t child") auto
  obtain t'' rest' tot' where ac:
    "aggregate_children srt t' rest (totalSize + Size child') = (t'', rest', tot')"
    by (cases "aggregate_children srt t' rest (totalSize + Size child')") auto
  from "3.IH"(1)[OF "3.prems"] a have c: "sizes_exact child'" "children_sorted child'" by auto
  from "3.IH"(2)[OF a[symmetric] refl "3.prems"] ac
  have r: "tot' = totalSize + Size child' + sum_list (map Size rest')"
    "\<forall>c \<in> set rest'. sizes_exact c \<and> children_sorted c" by auto
  show ?case using a ac c r by (simp add: add.assoc)
qed

lemma buildTree_Root:
  "Root (buildTree srt now e) = snd (aggregate srt (emptyTree e\<lparr>ScannedAt := now\<rparr>) e)"
  "TotalSize (buildTree srt now e) = Size (Root (buildTree srt now e))"
  by (simp_all add: buildTree_def emptyTree_def Let_def split: prod.splits)


lemma word_of_int_sum_list_sint:
  "word_of_int (sum_list (map sint ws)) = (sum_list ws :: int64)"
  by (induction ws) simp_all

lemma sint_sum_list:
  fixes ws :: "int64 list"
  assumes "- (2 ^ 63) \<le> sum_list (map sint ws)" "sum_list (map sint ws) < 2 ^ 63"
  shows "sint (sum_list ws) = sum_list (map sint ws)"
proof -
  have "sint (word_of_int (sum_list (map sint ws)) :: int64) = sum_list (map sint ws)"
    using assms by (simp add: sint_sbintrunc' signed_take_bit_int_eq_self)
  then show ?thesis by (simp add: word_of_int_sum_list_sint)
qed

lemma sizes_exact_int: "sizes_exact e \<Longrightarrow> sizes_exact_int e"
proof (induction e rule: sizes_exact.induct)
  case (1 n p ty sz mt cs d err ld)
  show ?case
  proof (cases "ty = TypeDir")
    case True
    have sz: "sz = sum_list (map Size cs)" and cs: "\<forall>c \<in> set cs. sizes_exact c"
      using "1.prems" True by simp_all
    have "sint sz = sum_list (map (\<lambda>c. sint (Size c)) cs)"
      if "- (2 ^ 63) \<le> sum_list (map (\<lambda>c. sint (Size c)) cs)"
        "sum_list (map (\<lambda>c. sint (Size c)) cs) < 2 ^ 63"
      using sint_sum_list[of "map Size cs"] that unfolding sz by (simp add: comp_def)
    moreover have "\<forall>c \<in> set cs. sizes_exact_int c"
      using "1.IH"[OF True] cs by blast
    ultimately show ?thesis by simp
  next
    case False
    then show ?thesis by simp
  qed
qed

subsection \<open>Depths\<close>

lemma depths_ok_iff:
  "depths_ok e \<longleftrightarrow> (\<forall>c \<in> set (Children e). Depth c = Depth e + 1 \<and> depths_ok c)"
  by (cases e) simp

lemma walkDir_child_props:
  "Depth (walkDir_child os p d de) = d + 1"
  "Children (walkDir_child os p d de) = []"
  "depths_ok (walkDir_child os p d de)"
  by (simp_all add: walkDir_child_def Let_def split: option.splits)

lemma LoadDir_child_props:
  "Depth (LoadDir_child os p d de) = d + 1"
  "Children (LoadDir_child os p d de) = []"
  "depths_ok (LoadDir_child os p d de)"
  by (simp_all add: LoadDir_child_def Let_def split: option.splits)

lemma walkDir_depths:
  "Depth (walkDir s os ctx e dirEntries rerr) = Depth e \<and>
   (depths_ok e \<longrightarrow> depths_ok (walkDir s os ctx e dirEntries rerr))"
  "(\<forall>c \<in> set children. Depth c = d + 1 \<and> depths_ok c) \<Longrightarrow>
     walkDir_loop s os ctx p d i dirEntries children = Some children' \<Longrightarrow>
     (\<forall>c \<in> set children'. Depth c = d + 1 \<and> depths_ok c)"
proof (induction s os ctx e dirEntries rerr and s os ctx p d i dirEntries children
       arbitrary: and children'
       rule: walkDir_walkDir_loop.induct)
  case (1 s os ctx n p ty sz mt cs d err ld dirEntries rerr)
  show ?case
  proof (cases "ctx p 0 \<or> (maxDepth s > 0 \<and> d \<ge> maxDepth s) \<or> ctx p 1")
    case True
    then show ?thesis by auto
  next
    case False
    then have f: "\<not> ctx p 0" "\<not> (maxDepth s > 0 \<and> d \<ge> maxDepth s)" "\<not> ctx p 1" by auto
    show ?thesis
    proof (cases rerr)
      case (Some e)
      then show ?thesis using f by auto
    next
      case None
      show ?thesis
      proof (cases "walkDir_loop s os ctx p d 0 dirEntries []")
        case N: None
        then show ?thesis using f None by auto
      next
        case (Some children)
        from "1.IH"[OF f None _ Some] have "\<forall>c \<in> set children. Depth c = d + 1 \<and> depths_ok c"
          by simp
        then show ?thesis using f None Some by auto
      qed
    qed
  qed
next
  case (2 s os ctx p d i children)
  then show ?case by simp
next
  case (3 s os ctx p d i de rest children)
  show ?case
  proof (cases "ctx p (2 + i)")
    case True
    with "3.prems" show ?thesis by simp
  next
    case nc: False
    show ?thesis
    proof (cases "shouldIgnore s os (de_Name de)")
      case True
      with nc "3.prems" "3.IH"(1)[OF nc True "3.prems"(1)] show ?thesis by simp
    next
      case ni: False
      show ?thesis
      proof (cases "\<not> showHidden s \<and> HasPrefix (de_Name de) ''.''")
        case True
        with nc ni "3.prems" "3.IH"(2)[OF nc ni True "3.prems"(1)] show ?thesis by simp
      next
        case nh: False
        define child where "child = walkDir_child os p d de"
        define child' where "child' = (if \<not> de_IsSymlink de \<and> de_IsDir de then
                         walkDir s os ctx child (de_ReadDir de) (de_ReadDirErr de)
                       else child)"
        have c: "Depth child = d + 1" "depths_ok child"
          by (simp_all add: child_def walkDir_child_props)
        have c': "Depth child' = d + 1 \<and> depths_ok child'"
        proof (cases "\<not> de_IsSymlink de \<and> de_IsDir de")
          case True
          from "3.IH"(3)[OF nc ni nh child_def[symmetric, THEN sym] True] c
          show ?thesis by (simp add: child'_def True)
        next
          case False
          then show ?thesis using c by (auto simp: child'_def)
        qed
        have l: "walkDir_loop s os ctx p d (i + 1) rest (children @ [child']) = Some children'"
          using "3.prems"(2) nc ni nh by (auto simp: Let_def child_def child'_def)
        have "\<forall>c \<in> set (children @ [child']). Depth c = d + 1 \<and> depths_ok c"
          using "3.prems"(1) c' by auto
        from "3.IH"(4)[OF nc ni nh child_def[symmetric, THEN sym] child'_def[symmetric, THEN sym] this l]
        show ?thesis .
      qed
    qed
  qed
qed

lemma aggregate_depths:
  "sorts_Slice srt \<Longrightarrow>
     Depth (snd (aggregate srt t e)) = Depth e \<and>
     (depths_ok e \<longrightarrow> depths_ok (snd (aggregate srt t e)))"
  "sorts_Slice srt \<Longrightarrow> (\<forall>c \<in> set cs. Depth c = k \<and> depths_ok c) \<Longrightarrow>
     aggregate_children srt t cs tot = (t', cs', tot') \<Longrightarrow>
     (\<forall>c \<in> set cs'. Depth c = k \<and> depths_ok c)"
proof (induction srt t e and srt t cs tot arbitrary: and k t' cs' tot'
       rule: aggregate_aggregate_children.induct)
  case (1 srt t n p ty sz mt cs d err ld)
  show ?case
  proof (cases "ty = TypeDir")
    case True
    obtain t'' cs' tot' where ac:
      "aggregate_children srt (t\<lparr>DirCount := DirCount t + 1\<rparr>) cs 0 = (t'', cs', tot')"
      by (cases "aggregate_children srt (t\<lparr>DirCount := DirCount t + 1\<rparr>) cs 0") auto
    have e: "snd (aggregate srt t (Entry n p ty sz mt cs d err ld)) =
               Entry n p ty tot' mt (srt bySizeDesc cs') d err ld"
      using True ac by (simp add: Let_def)
    have "depths_ok (Entry n p ty tot' mt (srt bySizeDesc cs') d err ld)"
      if ok: "depths_ok (Entry n p ty sz mt cs d err ld)"
    proof -
      have "\<forall>c \<in> set cs. Depth c = d + 1 \<and> depths_ok c" using ok by simp
      from "1.IH"[OF True refl "1.prems" this ac]
      have "\<forall>c \<in> set cs'. Depth c = d + 1 \<and> depths_ok c" .
      then show ?thesis by (simp add: sort_bySizeDesc(2)[OF "1.prems"])
    qed
    then show ?thesis unfolding e by simp
  next
    case False
    then show ?thesis by (simp add: Let_def)
  qed
next
  case (2 srt t totalSize)
  then show ?case by simp
next
  case (3 srt t child rest totalSize)
  obtain t1 child' where a: "aggregate srt t child = (t1, child')"
    by (cases "aggregate srt t child") auto
  obtain t2 rest' tot2 where ac:
    "aggregate_children srt t1 rest (totalSize + Size child') = (t2, rest', tot2)"
    by (cases "aggregate_children srt t1 rest (totalSize + Size child')") auto
  have cs': "cs' = child' # rest'"
    using "3.prems"(3) a ac by simp
  have ch: "Depth child = k" "depths_ok child" and rs: "\<forall>c \<in> set rest. Depth c = k \<and> depths_ok c"
    using "3.prems"(2) by simp_all
  from "3.IH"(1)[OF "3.prems"(1)] a ch
  have c: "Depth child' = k" "depths_ok child'" by simp_all
  from "3.IH"(2)[OF a[symmetric] refl "3.prems"(1) rs ac]
  have r: "\<forall>c \<in> set rest'. Depth c = k \<and> depths_ok c" .
  show ?case unfolding cs' using c r by simp
qed

lemma buildTree_depths:
  "sorts_Slice srt \<Longrightarrow> Depth (Root (buildTree srt now e)) = Depth e"
  "sorts_Slice srt \<Longrightarrow> depths_ok e \<Longrightarrow> depths_ok (Root (buildTree srt now e))"
  using aggregate_depths(1)[of srt] by (simp_all add: buildTree_Root)

lemma LoadDir_loop_depths:
  "(\<forall>c \<in> set children. Depth c = d + 1 \<and> depths_ok c) \<Longrightarrow>
   (\<forall>c \<in> set (LoadDir_loop s os p d dirEntries children). Depth c = d + 1 \<and> depths_ok c)"
  by (induction s os p d dirEntries children rule: LoadDir_loop.induct)
     (auto simp: LoadDir_child_props)

lemma LoadDir_depths:
  assumes "sorts_Slice srt"
  shows "Depth (fst (LoadDir s os srt e)) = Depth e"
    and "depths_ok e \<Longrightarrow> depths_ok (fst (LoadDir s os srt e))"
proof -
  obtain n p ty sz mt cs d err ld where e: "e = Entry n p ty sz mt cs d err ld"
    by (cases e) auto
  show "Depth (fst (LoadDir s os srt e)) = Depth e"
    unfolding e by (simp add: Let_def split: prod.splits option.splits)
  assume ok: "depths_ok e"
  have "\<forall>c \<in> set (LoadDir_loop s os p d dirEntries []). Depth c = d + 1 \<and> depths_ok c"
    for dirEntries
    by (rule LoadDir_loop_depths) simp
  then show "depths_ok (fst (LoadDir s os srt e))"
    using ok unfolding e
    by (simp add: Let_def sort_bySizeDesc(2)[OF assms] split: prod.splits option.splits)
qed

lemma lookup_Depth_update_at:
  "lookup r a = Some e \<Longrightarrow> Depth e' = Depth e \<Longrightarrow> Depth (update_at r a e') = Depth r"
proof (induction r a e' rule: update_at.induct)
  case (1 e new)
  then show ?case by simp
next
  case (2 n p ty sz mt cs d err ld i a new)
  then show ?case by simp
qed

lemma update_at_depths:
  "lookup r a = Some e \<Longrightarrow> Depth e' = Depth e \<Longrightarrow> depths_ok r \<Longrightarrow> depths_ok e' \<Longrightarrow>
     depths_ok (update_at r a e')"
proof (induction r a e' rule: update_at.induct)
  case (1 e new)
  then show ?case by simp
next
  case (2 n p ty sz mt cs d err ld i a new)
  show ?case
  proof (cases "i < length cs")
    case True
    have l: "lookup (cs ! i) a = Some e" using "2.prems"(1) True by simp
    have ci: "cs ! i \<in> set cs" using True by simp
    have ok: "depths_ok (update_at (cs ! i) a new)"
      using "2.IH"[OF True l "2.prems"(2) _ "2.prems"(4)] "2.prems"(3) ci by simp
    have dp: "Depth (update_at (cs ! i) a new) = d + 1"
      using lookup_Depth_update_at[OF l "2.prems"(2)] "2.prems"(3) ci by simp
    have "\<forall>c \<in> set (cs[i := update_at (cs ! i) a new]). Depth c = d + 1 \<and> depths_ok c"
    proof
      fix c assume "c \<in> set (cs[i := update_at (cs ! i) a new])"
      then have "c \<in> insert (update_at (cs ! i) a new) (set cs)"
        using set_update_subset_insert by fastforce
      then show "Depth c = d + 1 \<and> depths_ok c"
        using ok dp "2.prems"(3) by auto
    qed
    then show ?thesis using True by simp
  next
    case False
    then show ?thesis using "2.prems" by simp
  qed
qed

lemma LoadDir_at_depths:
  assumes "sorts_Slice srt"
  shows "Depth (fst (LoadDir_at s os srt r a)) = Depth r"
    and "depths_ok r \<Longrightarrow> depths_ok (fst (LoadDir_at s os srt r a))"
proof -
  show "Depth (fst (LoadDir_at s os srt r a)) = Depth r"
  proof (cases "lookup r a")
    case None
    then show ?thesis by (simp add: LoadDir_at_def)
  next
    case (Some e)
    then show ?thesis
      using lookup_Depth_update_at[OF Some LoadDir_depths(1)[OF assms, of s os e]]
      by (simp add: LoadDir_at_def split: prod.splits) (metis fst_conv)
  qed
  assume ok: "depths_ok r"
  show "depths_ok (fst (LoadDir_at s os srt r a))"
  proof (cases "lookup r a")
    case None
    then show ?thesis using ok by (simp add: LoadDir_at_def)
  next
    case (Some e)
    have oke: "depths_ok e" using Some ok
    proof (induction r a arbitrary: rule: lookup.induct)
      case (1 e)
      then show ?case by simp
    next
      case (2 e' i a)
      then show ?case by (cases e') (auto split: if_splits)
    qed
    show ?thesis
      using update_at_depths[OF Some LoadDir_depths(1)[OF assms, of s os e] ok
              LoadDir_depths(2)[OF assms oke, of s os]]
      by (simp add: LoadDir_at_def Some split: prod.splits) (metis fst_conv)
  qed
qed

lemma LoadDir_seq_depths:
  "sorts_Slice srt \<Longrightarrow> depths_ok r \<Longrightarrow>
     Depth (LoadDir_seq s srt r loads) = Depth r \<and> depths_ok (LoadDir_seq s srt r loads)"
proof (induction s srt r loads rule: LoadDir_seq.induct)
  case (1 s srt r)
  then show ?case by simp
next
  case (2 s srt r os a rest)
  then show ?case by (simp add: LoadDir_at_depths)
qed

subsection \<open>scanSync, LoadDir and addresses\<close>

lemma scanSync_valid:
  assumes "filepath_Abs os path = (absRoot, None)" "os_Stat os absRoot = Inr info"
    "info_IsDir info"
  shows "scanSync s os srt ctx path =
     (Some (buildTree srt (time_Now os)
              (walkDir s os ctx (rootEntry_of os absRoot info)
                 (fst (os_ReadDir os absRoot)) (snd (os_ReadDir os absRoot)))), None)"
  using assms
  by (cases "os_ReadDir os absRoot") (simp add: scanSync_def rootEntry_of_def Let_def del: walkDir.simps)

lemma scanSync_cases:
  "scanSync s os srt ctx path = (Some t, err) \<Longrightarrow>
     \<exists>absRoot info. filepath_Abs os path = (absRoot, None) \<and> os_Stat os absRoot = Inr info \<and>
        info_IsDir info"
  by (auto simp: scanSync_def Let_def split: prod.splits option.splits sum.splits if_splits)

lemma walkDir_cancelled: "walkDir s os cancelled e dirEntries rerr = e"
  by (cases e) (simp add: cancelled_def)

lemma aggregate_leaf_dir:
  "sorts_Slice srt \<Longrightarrow>
     snd (aggregate srt t (Entry n p TypeDir sz mt [] d err ld)) = Entry n p TypeDir 0 mt [] d err ld"
  using sort_bySizeDesc(2)[of srt "[]"] by (simp add: Let_def)

lemma aggregate_Error: "Error (snd (aggregate srt t e)) = Error e"
  by (cases e) (simp add: Let_def split: prod.splits)

lemma LoadDir_total_sum: "LoadDir_total cs tot = tot + sum_list (map Size cs)"
  by (induction cs arbitrary: tot) (simp_all add: add.assoc)

lemma lookup_update_at_same:
  "lookup r a = Some e \<Longrightarrow> lookup (update_at r a e') a = Some e'"
proof (induction r a e' rule: update_at.induct)
  case (1 e new)
  then show ?case by simp
next
  case (2 n p ty sz mt cs d err ld i a new)
  then show ?case by (auto split: if_splits)
qed

lemma update_at_Size:
  "a \<noteq> [] \<Longrightarrow> Size (update_at r a e') = Size r"
  by (cases a; cases r) auto

lemma lookup_update_at_other:
  "lookup r a = Some e \<Longrightarrow> \<not> prefix a b \<Longrightarrow> lookup r b = Some x \<Longrightarrow>
     \<exists>x'. lookup (update_at r a e') b = Some x' \<and> Size x' = Size x"
proof (induction r a e' arbitrary: b x rule: update_at.induct)
  case (1 e new)
  then show ?case by simp
next
  case (2 n p ty sz mt cs d err ld i a new)
  have il: "i < length cs" and la: "lookup (cs ! i) a = Some e"
    using "2.prems"(1) by (auto split: if_splits)
  show ?case
  proof (cases b)
    case Nil
    then show ?thesis using "2.prems"(3) il by auto
  next
    case (Cons j b')
    have jl: "j < length cs" and lb: "lookup (cs ! j) b' = Some x"
      using "2.prems"(3) Cons by (auto split: if_splits)
    show ?thesis
    proof (cases "j = i")
      case True
      have "\<not> prefix a b'" using "2.prems"(2) Cons True by simp
      from "2.IH"[OF il la this] lb True
      obtain x' where "lookup (update_at (cs ! i) a new) b' = Some x'" "Size x' = Size x"
        by blast
      then show ?thesis using Cons True il by simp
    next
      case False
      then show ?thesis using Cons il jl lb by simp
    qed
  qed
qed

lemma lookup_below_leaf:
  "lookup r a = Some e \<Longrightarrow> Children e = [] \<Longrightarrow> lookup r b = Some x \<Longrightarrow> prefix a b \<Longrightarrow> b = a"
proof (induction r a arbitrary: b rule: lookup.induct)
  case (1 e')
  then show ?case by (cases b) auto
next
  case (2 e' i a)
  from "2.prems"(4) obtain b' where b: "b = i # b'" and p: "prefix a b'"
    by (cases b) auto
  have il: "i < length (Children e')" and la: "lookup (Children e' ! i) a = Some e"
    using "2.prems"(1) by (auto split: if_splits)
  have "lookup (Children e' ! i) b' = Some x" using "2.prems"(3) b il by simp
  from "2.IH"[OF il la "2.prems"(2) this p] b show ?case by simp
qed

lemma update_at_lookup_id: "lookup r a = Some e \<Longrightarrow> update_at r a e = r"
proof (induction r a e rule: update_at.induct)
  case (1 e new)
  then show ?case by simp
next
  case (2 n p ty sz mt cs d err ld i a new)
  then show ?case by (auto split: if_splits simp: list_update_same_conv)
qed

lemma LoadDir_noop:
  "Type e \<noteq> TypeDir \<or> Loaded e \<Longrightarrow> LoadDir s os srt e = (e, None)"
  by (cases e) auto

lemma LoadDir_failure:
  "LoadDir s os srt e = (e', Some err) \<Longrightarrow>
     Loaded e' \<and> Error e' = errorString err \<and> Children e' = Children e \<and> Size e' = Size e"
  by (cases e) (auto simp: Let_def split: if_splits prod.splits option.splits)

lemma LoadDir_success:
  assumes "sorts_Slice srt" "Type e = TypeDir" "\<not> Loaded e" "LoadDir s os srt e = (e', None)"
  shows "Loaded e' \<and> Size e' = sum_list (map Size (Children e')) \<and>
         sorted_wrt (\<lambda>x y. Size y \<le>s Size x) (Children e') \<and>
         snd (os_ReadDir os (Path e)) = None \<and>
         mset (Children e') =
           mset (LoadDir_loop s os (Path e) (Depth e) (fst (os_ReadDir os (Path e))) [])"
proof -
  obtain n p ty sz mt cs d err ld where e: "e = Entry n p ty sz mt cs d err ld"
    by (cases e) auto
  obtain dirEntries rerr where rd: "os_ReadDir os p = (dirEntries, rerr)"
    by (cases "os_ReadDir os p") auto
  have rerr: "rerr = None" using assms(2-4) rd unfolding e by (cases rerr) auto
  have e': "e' = Entry n p ty (LoadDir_total (srt bySizeDesc (LoadDir_loop s os p d dirEntries [])) 0)
                   mt (srt bySizeDesc (LoadDir_loop s os p d dirEntries [])) d err True"
    using assms(2-4) rd rerr unfolding e by (simp add: Let_def)
  show ?thesis
    unfolding e' using sort_bySizeDesc[OF assms(1)] rd rerr
    by (simp add: e LoadDir_total_sum)
qed

subsection \<open>The pedestal tree\<close>

lemma sideFiles_pos: "files \<noteq> [] \<Longrightarrow> 1 \<le> \<lceil>sqrt (real (length files))\<rceil>"
proof -
  assume "files \<noteq> []"
  then have "1 \<le> real (length files)" by (cases files) simp_all
  then have "1 \<le> sqrt (real (length files))" by simp
  then show ?thesis by linarith
qed

lemma lookup_append:
  "lookup r (a @ b) = (case lookup r a of None \<Rightarrow> None | Some e \<Rightarrow> lookup e b)"
  by (induction r a rule: lookup.induct) auto

lemma lookup_snoc:
  "lookup r a = Some e \<Longrightarrow> i < length (Children e) \<Longrightarrow>
     lookup r (a @ [i]) = Some (Children e ! i)"
  by (simp add: lookup_append)

lemma drop_eq_ConsD:
  "drop i xs = y # ys \<Longrightarrow> i < length xs \<and> y = xs ! i \<and> ys = drop (Suc i) xs"
  by (metis Cons_nth_drop_Suc drop_all list.distinct(1) list.inject not_le)

lemma collapsed_bounds_ok_upd:
  assumes "collapsed_bounds_ok opts r bs" "lookup r a = Some e"
    "Type e = TypeDir \<and> \<not> isExpanded opts (Path e) \<longrightarrow> b = collapsedBounds"
  shows "collapsed_bounds_ok opts r (bs(a \<mapsto> b))"
  using assms unfolding collapsed_bounds_ok_def by auto

lemma calcBounds_inv:
  "lookup r a = Some e \<Longrightarrow> collapsed_bounds_ok opts r bs \<Longrightarrow>
     collapsed_bounds_ok opts r (calcBounds opts a e bs)"
  "lookup r a = Some e' \<Longrightarrow> cs = drop i (Children e') \<Longrightarrow> collapsed_bounds_ok opts r bs \<Longrightarrow>
     collapsed_bounds_ok opts r (fst (calcBounds_subdirs opts a i cs bs w))"
proof (induction opts a e bs and opts a i cs bs w arbitrary: r and r e'
       rule: calcBounds_calcBounds_subdirs.induct)
  case (1 opts a n p ty sz mt cs d err ld bounds)
  let ?e = "Entry n p ty sz mt cs d err ld"
  show ?case
  proof (cases "ty \<noteq> TypeDir")
    case True
    then show ?thesis using "1.prems" by simp
  next
    case dir: False
    show ?thesis
    proof (cases "isExpanded opts p")
      case False
      then show ?thesis
        using dir collapsed_bounds_ok_upd[OF "1.prems"(2) "1.prems"(1), of collapsedBounds]
        by (simp add: fun_upd_def)
    next
      case ex: True
      define numFiles where "numFiles = int (length (filter (\<lambda>child. Type child \<noteq> TypeDir) cs))"
      obtain dirW dirD where ds: "calcDirSize numFiles = (dirW, dirD)"
        by (cases "calcDirSize numFiles") auto
      show ?thesis
      proof (cases "Options.MaxDepth opts > 0 \<and> d \<ge> Options.MaxDepth opts")
        case True
        then show ?thesis
          using dir ex ds collapsed_bounds_ok_upd[OF "1.prems"(2) "1.prems"(1)]
          by (simp add: Let_def numFiles_def[symmetric] fun_upd_def)
      next
        case False
        obtain bounds' childWidth where sd:
          "calcBounds_subdirs opts a 0 cs bounds 0 = (bounds', childWidth)"
          by (cases "calcBounds_subdirs opts a 0 cs bounds 0") auto
        have dir': "\<not> ty \<noteq> TypeDir" and ex': "\<not> \<not> isExpanded opts p"
          using dir ex by simp_all
        have ds': "(dirW, dirD) = calcDirSize (int (length (filter (\<lambda>child. Type child \<noteq> TypeDir) cs)))"
          using ds by (simp add: numFiles_def)
        have cs0: "cs = drop 0 (Children (Entry n p ty sz mt cs d err ld))" by simp
        have "collapsed_bounds_ok opts r (fst (calcBounds_subdirs opts a 0 cs bounds 0))"
          by (rule "1.IH"[OF dir' ex' refl refl ds' refl False "1.prems"(1) cs0 "1.prems"(2)])
        then have "collapsed_bounds_ok opts r bounds'" using sd by simp
        from collapsed_bounds_ok_upd[OF this "1.prems"(1)]
        show ?thesis
          using dir ex ds False sd by (auto simp: Let_def numFiles_def[symmetric] fun_upd_def)
      qed
    qed
  qed
next
  case (2 opts a i bounds childWidth)
  then show ?case by simp
next
  case (3 opts a i child rest bounds childWidth)
  from drop_eq_ConsD[OF "3.prems"(2)[symmetric]]
  have il: "i < length (Children e')" and ch: "child = Children e' ! i"
    and rs: "rest = drop (i + 1) (Children e')" by simp_all
  have lc: "lookup r (a @ [i]) = Some child"
    using lookup_snoc[OF "3.prems"(1) il] ch by simp
  show ?case
  proof (cases "Type child = TypeDir")
    case True
    define bounds' where "bounds' = calcBounds opts (a @ [i]) child bounds"
    have ok': "collapsed_bounds_ok opts r bounds'"
      unfolding bounds'_def using "3.IH"(1)[OF True lc "3.prems"(3)] .
    show ?thesis
    proof (cases "bounds' (a @ [i])")
      case None
      from "3.IH"(2)[OF True bounds'_def None "3.prems"(1) rs ok']
      show ?thesis using True None by (simp add: bounds'_def[symmetric])
    next
      case (Some cb)
      from "3.IH"(3)[OF True bounds'_def Some "3.prems"(1) rs ok']
      show ?thesis using True Some by (simp add: bounds'_def[symmetric])
    qed
  next
    case False
    from "3.IH"(4)[OF False "3.prems"(1) rs "3.prems"(3)]
    show ?thesis using False by simp
  qed
qed

lemma calcBounds_stores:
  "Type e = TypeDir \<Longrightarrow> calcBounds opts a e bs a \<noteq> None"
  by (cases e) (auto simp: Let_def split: prod.splits)

lemma calcBounds_collapsed:
  "Type e = TypeDir \<Longrightarrow> \<not> isExpanded opts (Path e) \<Longrightarrow>
     calcBounds opts a e bs = bs(a \<mapsto> collapsedBounds)"
  by (cases e) auto

lemma calcBounds_nondir:
  "Type e \<noteq> TypeDir \<Longrightarrow> calcBounds opts a e bs = bs"
  by (cases e) auto

text \<open>Replacing one child by an entry that calcBounds treats alike does not change the loop.\<close>

lemma calcBounds_subdirs_cong:
  assumes "length cs' = length cs"
    and "\<And>j. j < length cs \<Longrightarrow> Type (cs' ! j) = Type (cs ! j)"
    and "\<And>j b bs. j < length cs \<Longrightarrow> calcBounds opts b (cs' ! j) bs = calcBounds opts b (cs ! j) bs"
  shows "calcBounds_subdirs opts a i cs' bs w = calcBounds_subdirs opts a i cs bs w"
  using assms
proof (induction cs arbitrary: cs' i bs w)
  case Nil
  then show ?case by simp
next
  case (Cons c cs)
  then obtain c' cs'' where cs': "cs' = c' # cs''" by (cases cs') auto
  have len: "length cs'' = length cs" using Cons.prems(1) cs' by simp
  have ty: "Type c' = Type c" using Cons.prems(2)[of 0] cs' by simp
  have cb: "\<And>b bs. calcBounds opts b c' bs = calcBounds opts b c bs"
    using Cons.prems(3)[of 0] cs' by simp
  have tys: "\<And>j. j < length cs \<Longrightarrow> Type (cs'' ! j) = Type (cs ! j)"
    using Cons.prems(2)[of "Suc _"] cs' by simp
  have cbs: "\<And>j b bs. j < length cs \<Longrightarrow> calcBounds opts b (cs'' ! j) bs = calcBounds opts b (cs ! j) bs"
    using Cons.prems(3)[of "Suc _"] cs' by simp
  note ih = Cons.IH[OF len tys cbs]
  show ?case unfolding cs' by (simp add: ty cb ih Let_def split: option.splits)
qed

lemma update_at_Type:
  "lookup r a = Some e \<Longrightarrow> Type e' = Type e \<Longrightarrow> Type (update_at r a e') = Type r"
  by (induction r a e' rule: update_at.induct) auto

lemma length_filter_map_cong:
  "map f xs = map f ys \<Longrightarrow>
     length (filter (\<lambda>x. Q (f x)) xs) = length (filter (\<lambda>x. Q (f x)) ys)"
proof (induction xs arbitrary: ys)
  case Nil
  then show ?case by simp
next
  case (Cons x xs)
  then obtain y ys' where "ys = y # ys'" "f x = f y" "map f xs = map f ys'" by (cases ys) auto
  then show ?case using Cons.IH[of ys'] by simp
qed

lemma calcBounds_update_at:
  "lookup r a = Some D1 \<Longrightarrow> Type D1 = TypeDir \<Longrightarrow> Type D2 = TypeDir \<Longrightarrow>
   Path D2 = Path D1 \<Longrightarrow> \<not> isExpanded opts (Path D1) \<Longrightarrow>
     calcBounds opts b (update_at r a D2) bs = calcBounds opts b r bs"
proof (induction r a D2 arbitrary: b bs rule: update_at.induct)
  case (1 e new)
  then show ?case by (simp add: calcBounds_collapsed)
next
  case (2 n p ty sz mt cs d err ld i a new)
  have il: "i < length cs" and la: "lookup (cs ! i) a = Some D1"
    using "2.prems"(1) by (auto split: if_splits)
  let ?c' = "update_at (cs ! i) a new"
  let ?cs' = "cs[i := ?c']"
  have ty: "Type ?c' = Type (cs ! i)"
    using update_at_Type[OF la] "2.prems"(2,3) by simp
  have cb: "\<And>b bs. calcBounds opts b ?c' bs = calcBounds opts b (cs ! i) bs"
    using "2.IH"[OF il la "2.prems"(2-5)] .
  have tys: "Type (?cs' ! j) = Type (cs ! j)" if "j < length cs" for j
    using ty that by (cases "j = i") simp_all
  have cbs: "calcBounds opts b (?cs' ! j) bs = calcBounds opts b (cs ! j) bs"
    if "j < length cs" for j b bs
    using cb that by (cases "j = i") simp_all
  have sd: "\<And>k bs w. calcBounds_subdirs opts b k ?cs' bs w = calcBounds_subdirs opts b k cs bs w"
    by (rule calcBounds_subdirs_cong) (simp_all add: tys cbs)
  have "map Type ?cs' = map Type cs"
    by (rule nth_equalityI) (simp_all add: tys)
  then have nf: "length (filter (\<lambda>child. Type child \<noteq> TypeDir) ?cs') =
             length (filter (\<lambda>child. Type child \<noteq> TypeDir) cs)"
    by (rule length_filter_map_cong)
  show ?case using il by (simp add: sd nf Let_def cong: if_cong)
qed

lemma vis_size_collapsedBounds: "vis_size collapsedBounds = placeholderSize"
  by (simp add: collapsedBounds_def placeholderSize_def)

lemma collapsed_bounds_ok_empty: "collapsed_bounds_ok opts r Map.empty"
  by (simp add: collapsed_bounds_ok_def)

lemma place_files_loop_ok:
  "\<forall>f \<in> set files. Type f \<noteq> TypeDir \<Longrightarrow>
   \<forall>n \<in> set nodes. collapsed_is_placeholder opts n \<Longrightarrow>
   \<forall>n \<in> set (place_files_loop env sideFiles fStartX fStartY maxFileSize i files fPosX fPosZ nodes).
      collapsed_is_placeholder opts n"
proof (induction env sideFiles fStartX fStartY maxFileSize i files fPosX fPosZ nodes
       rule: place_files_loop.induct)
  case (1 env sideFiles fStartX fStartY maxFileSize i fPosX fPosZ nodes)
  then show ?case by simp
next
  case (2 env sideFiles fStartX fStartY maxFileSize i fl rest fPosX fPosZ nodes)
  have f: "Type fl \<noteq> TypeDir" and r: "\<forall>f \<in> set rest. Type f \<noteq> TypeDir"
    using "2.prems"(1) by simp_all
  define fileNode where "fileNode = Node fl \<lparr>Vector3.X = fPosX, Y = fStartY, Z = fPosZ\<rparr>
                       \<lparr>Vector3.X = lpFileSize, Y = lpFileHeight, Z = lpFileSize\<rparr>
                       (ColorFromSize env (Size fl) maxFileSize) [] (Depth fl)"
  have ok: "\<forall>n \<in> set (nodes @ [fileNode]). collapsed_is_placeholder opts n"
    using "2.prems"(2) f by (simp add: fileNode_def)
  show ?case
  proof (cases "i mod sideFiles = sideFiles - 1")
    case True
    from "2.IH"[OF refl refl refl refl _ refl r] ok True
    show ?thesis by (simp add: Let_def fileNode_def)
  next
    case False
    from "2.IH"[OF refl refl refl refl _ refl r] ok False
    show ?thesis by (simp add: Let_def fileNode_def)
  qed
qed

lemma place_files_ok:
  "\<forall>f \<in> set files. Type f \<noteq> TypeDir \<Longrightarrow>
   \<forall>n \<in> set (place_files env pos b files). collapsed_is_placeholder opts n"
  unfolding place_files_def Let_def by (rule place_files_loop_ok) simp_all

lemma place_ok:
  "lookup r a = Some e \<Longrightarrow> collapsed_bounds_ok opts r bs \<Longrightarrow>
   (Type e = TypeDir \<longrightarrow> bs a \<noteq> None) \<Longrightarrow>
   place env opts bs a e pos = Some node \<Longrightarrow> collapsed_is_placeholder opts node"
  "lookup r a = Some e' \<Longrightarrow> cs = drop i (Children e') \<Longrightarrow> collapsed_bounds_ok opts r bs \<Longrightarrow>
   \<forall>n \<in> set nodes. collapsed_is_placeholder opts n \<Longrightarrow>
   \<forall>n \<in> set (place_dirs env opts bs a pos b i cs x nodes). collapsed_is_placeholder opts n"
proof (induction env opts bs a e pos and env opts bs a pos b i cs x nodes
       arbitrary: r node and r e'
       rule: place_place_dirs.induct)
  case (1 env opts bounds a n p ty sz mt cs d err ld pos)
  let ?e = "Entry n p ty sz mt cs d err ld"
  have nd: "\<not> (Options.MaxDepth opts > 0 \<and> d > Options.MaxDepth opts)"
    using "1.prems"(4) by (auto split: if_splits)
  show ?case
  proof (cases "bounds a")
    case None
    then have "ty \<noteq> TypeDir" using "1.prems"(3) by auto
    then show ?thesis using "1.prems"(4) nd None by auto
  next
    case (Some b)
    show ?thesis
    proof (cases "ty \<noteq> TypeDir")
      case True
      then show ?thesis using "1.prems"(4) nd Some by auto
    next
      case dir: False
      show ?thesis
      proof (cases "isExpanded opts p")
        case False
        have "b = collapsedBounds"
          using "1.prems"(1,2) Some dir False unfolding collapsed_bounds_ok_def by auto
        then show ?thesis
          using "1.prems"(4) nd Some dir False by (auto simp: vis_size_collapsedBounds)
      next
        case ex: True
        define files where "files = filter (\<lambda>child. Type child \<noteq> TypeDir) cs"
        define dirs where "dirs = filter (\<lambda>child. Type child = TypeDir) cs"
        define fileNodes where
          "fileNodes = (if length files > 0 then place_files env pos b files else [])"
        define dirNodes where
          "dirNodes = (if length dirs > 0 \<and>
                          (Options.MaxDepth opts = 0 \<or> d < Options.MaxDepth opts)
                       then place_dirs env opts bounds a pos b 0 cs
                              (minX b - lpDirSpacing / 2) []
                       else [])"
        have node: "node = Node ?e pos (vis_size b) (DirColor env) (fileNodes @ dirNodes) d"
          using "1.prems"(4) nd Some dir ex
          by (auto simp: Let_def files_def dirs_def fileNodes_def dirNodes_def)
        have fo: "\<forall>n \<in> set fileNodes. collapsed_is_placeholder opts n"
          unfolding fileNodes_def
          using place_files_ok[where files=files and opts=opts and env=env and pos=pos and b=b]
          by (auto simp: files_def)
        have dir': "\<not> ty \<noteq> TypeDir" and ex': "\<not> \<not> isExpanded opts p"
          using dir ex by simp_all
        have cs0: "cs = drop 0 (Children ?e)" by simp
        have "\<forall>n \<in> set (place_dirs env opts bounds a pos b 0 cs (minX b - lpDirSpacing / 2) []).
                collapsed_is_placeholder opts n"
          if c: "length dirs > 0 \<and> (Options.MaxDepth opts = 0 \<or> d < Options.MaxDepth opts)"
          by (rule "1.IH"[OF nd Some dir' ex' files_def dirs_def fileNodes_def
                c "1.prems"(1) cs0 "1.prems"(2)]) simp
        then have do: "\<forall>n \<in> set dirNodes. collapsed_is_placeholder opts n"
          unfolding dirNodes_def by simp
        show ?thesis unfolding node using fo do ex by auto
      qed
    qed
  qed
next
  case (2 env opts bounds a pos b i x nodes)
  then show ?case by simp
next
  case (3 env opts bounds a pos b i child rest x nodes)
  from drop_eq_ConsD[OF "3.prems"(2)[symmetric]]
  have il: "i < length (Children e')" and ch: "child = Children e' ! i"
    and rs: "rest = drop (i + 1) (Children e')" by simp_all
  have lc: "lookup r (a @ [i]) = Some child"
    using lookup_snoc[OF "3.prems"(1) il] ch by simp
  show ?case
  proof (cases "Type child \<noteq> TypeDir")
    case True
    from "3.IH"(1)[OF True "3.prems"(1) rs "3.prems"(3,4)]
    show ?thesis using True by simp
  next
    case dir: False
    show ?thesis
    proof (cases "bounds (a @ [i])")
      case None
      from "3.IH"(2)[OF dir None "3.prems"(1) rs "3.prems"(3,4)]
      show ?thesis using dir None by simp
    next
      case (Some cb)
      define width where "width = maxX cb - minX cb"
      define childPos where "childPos = \<lparr>Vector3.X = Vector3.X pos + x + width / 2,
                              Y = Vector3.Y pos,
                              Z = Z pos - (Z (vis_size b) / 2 + lpDirDist)\<rparr>"
      define nodes' where "nodes' = (case place env opts bounds (a @ [i]) child childPos of
                              Some childNode \<Rightarrow> nodes @ [childNode]
                            | None \<Rightarrow> nodes)"
      have ok': "\<forall>n \<in> set nodes'. collapsed_is_placeholder opts n"
      proof (cases "place env opts bounds (a @ [i]) child childPos")
        case None
        then show ?thesis using "3.prems"(4) by (simp add: nodes'_def)
      next
        case (Some childNode)
        have "collapsed_is_placeholder opts childNode"
          by (rule "3.IH"(3)[OF dir \<open>bounds (a @ [i]) = Some cb\<close> width_def childPos_def lc
                "3.prems"(3) _ Some]) (simp add: \<open>bounds (a @ [i]) = Some cb\<close>)
        then show ?thesis using "3.prems"(4) Some by (simp add: nodes'_def)
      qed
      from "3.IH"(4)[OF dir Some width_def childPos_def nodes'_def "3.prems"(1) rs "3.prems"(3) ok']
      show ?thesis using dir Some
        by (simp add: Let_def width_def childPos_def nodes'_def)
    qed
  qed
qed

lemma computeTreeV_ok:
  "computeTreeV env t opts = Some node \<Longrightarrow> collapsed_is_placeholder opts node"
proof -
  assume c: "computeTreeV env t opts = Some node"
  let ?bs = "calcBounds opts [] (Root t) Map.empty"
  have l: "lookup (Root t) [] = Some (Root t)" by simp
  have ok: "collapsed_bounds_ok opts (Root t) ?bs"
    by (rule calcBounds_inv(1)[OF l collapsed_bounds_ok_empty])
  have st: "Type (Root t) = TypeDir \<longrightarrow> ?bs [] \<noteq> None"
    using calcBounds_stores by blast
  show ?thesis
    by (rule place_ok(1)[OF l ok st c[unfolded computeTreeV_def Let_def]])
qed

subsection \<open>The treemap\<close>

lemma squarify_index_below:
  "\<forall>x \<in> set (map (\<lambda>(i, a). \<lparr>index = i, area = a\<rparr>) (enumerate 0 areas)). index x < length areas"
  by (auto simp: in_set_enumerate_eq)

lemma scaleHeight_ExpandedPaths:
  "scaleHeight sz (opts\<lparr>ExpandedPaths := xp\<rparr>) = scaleHeight sz opts"
  by (simp add: scaleHeight_def Let_def cong: if_cong)

lemma layoutMapVNode_ExpandedPaths:
  "layoutMapVNode env (opts\<lparr>ExpandedPaths := xp\<rparr>) e rect depth =
     layoutMapVNode env opts e rect depth"
  "layoutMapVNode_children env (opts\<lparr>ExpandedPaths := xp\<rparr>) depth height rects i cs nodes =
     layoutMapVNode_children env opts depth height rects i cs nodes"
proof (induction env opts e rect depth and env opts depth height rects i cs nodes
       rule: layoutMapVNode_layoutMapVNode_children.induct)
  case (1 env opts n p ty sz mt cs d err ld rect depth)
  show ?case
  proof (cases "Options.MaxDepth opts > 0 \<and> depth > Options.MaxDepth opts")
    case True
    then show ?thesis by simp
  next
    case nd: False
    show ?thesis
    proof (cases "ty = TypeDir \<and> length cs > 0 \<and> length (sizedChildren_of cs) > 0")
      case True
      have "layoutMapVNode_children env (opts\<lparr>ExpandedPaths := xp\<rparr>) depth (scaleHeight sz opts)
              (squarify (sort_areas env) (sizedChildren_of cs)
                 \<lparr>Rect2D.X = Rect2D.X rect + W rect * PaddingRatio opts,
                    Y = Rect2D.Y rect + W rect * PaddingRatio opts,
                    W = W rect - 2 * (W rect * PaddingRatio opts),
                    H = H rect - 2 * (W rect * PaddingRatio opts)\<rparr> sz) 0
              (sizedChildren_of cs) [] =
            layoutMapVNode_children env opts depth (scaleHeight sz opts)
              (squarify (sort_areas env) (sizedChildren_of cs)
                 \<lparr>Rect2D.X = Rect2D.X rect + W rect * PaddingRatio opts,
                    Y = Rect2D.Y rect + W rect * PaddingRatio opts,
                    W = W rect - 2 * (W rect * PaddingRatio opts),
                    H = H rect - 2 * (W rect * PaddingRatio opts)\<rparr> sz) 0
              (sizedChildren_of cs) []"
        by (rule "1.IH"[OF nd refl refl refl refl _ refl refl refl _ refl]) (use True in simp_all)
      then show ?thesis using nd True by (simp add: Let_def scaleHeight_ExpandedPaths)
    next
      case False
      then show ?thesis using nd by (auto simp: Let_def scaleHeight_ExpandedPaths)
    qed
  qed
next
  case (2 env opts depth height rects i nodes)
  then show ?case by simp
next
  case (3 env opts depth height rects i child rest nodes)
  show ?case
  proof (cases "i < length rects")
    case True
    note c = "3.IH"(1)[OF True]
    show ?thesis
    proof (cases "layoutMapVNode env opts child (rects ! i) (depth + 1)")
      case None
      from "3.IH"(2)[OF True None] show ?thesis using True None c by simp
    next
      case (Some nd)
      obtain e pos nsz col children d where nd: "nd = Node e pos nsz col children d"
        by (cases nd) auto
      from "3.IH"(3)[OF True Some nd]
      show ?thesis using True Some c nd by simp
    qed
  next
    case False
    from "3.IH"(4)[OF False] show ?thesis using False by simp
  qed
qed

lemma Compute_MapV_ExpandedPaths:
  "Mode opts \<noteq> ModeTreeV \<Longrightarrow>
     Compute env (Some t) (opts\<lparr>ExpandedPaths := xp\<rparr>) = Compute env (Some t) opts"
  by (simp add: Compute_def computeMapV_def layoutMapVNode_ExpandedPaths)

lemma not_isExpanded:
  "ExpandedPaths opts = Some m \<Longrightarrow> m p \<noteq> Some True \<Longrightarrow> \<not> isExpanded opts p"
  by (cases "m p") (auto simp: isExpanded_def)

subsection \<open>The height mapping\<close>

lemma scaleHeight_pos:
  "0 <s a \<Longrightarrow> MinHeight opts \<le> MaxHeight opts \<Longrightarrow>
     scaleHeight a opts = clamp (log 2 (sizeKB a + 1) * HeightScale opts) (MinHeight opts) (MaxHeight opts)"
  by (auto simp: scaleHeight_def sizeKB_def clamp_def Let_def word_sless_alt word_sle_eq)

lemma scaleHeight_nonpos: "a \<le>s 0 \<Longrightarrow> scaleHeight a opts = MinHeight opts"
  by (simp add: scaleHeight_def)

lemma scaleHeight_bounds:
  "MinHeight opts \<le> MaxHeight opts \<Longrightarrow>
     MinHeight opts \<le> scaleHeight a opts \<and> scaleHeight a opts \<le> MaxHeight opts"
  by (auto simp: scaleHeight_def Let_def)

lemma sizeKB_mono: "a \<le>s b \<Longrightarrow> sizeKB a \<le> sizeKB b"
  by (simp add: sizeKB_def float64_of_int64_def word_sle_eq divide_right_mono del: of_int_sint)

lemma sizeKB_pos: "0 <s a \<Longrightarrow> 0 < sizeKB a"
  by (simp add: sizeKB_def float64_of_int64_def word_sless_alt del: of_int_sint)

lemma scaleHeight_mono:
  assumes "MinHeight opts \<le> MaxHeight opts" "0 \<le> HeightScale opts" "a \<le>s b"
  shows "scaleHeight a opts \<le> scaleHeight b opts"
proof (cases "a \<le>s 0")
  case True
  then show ?thesis using scaleHeight_bounds[OF assms(1), of b] by (simp add: scaleHeight_nonpos)
next
  case False
  then have a: "0 <s a" by (simp add: word_sless_alt word_sle_eq)
  then have b: "0 <s b" using assms(3) by (simp add: word_sless_alt word_sle_eq)
  have "log 2 (sizeKB a + 1) \<le> log 2 (sizeKB b + 1)"
    using sizeKB_mono[OF assms(3)] sizeKB_pos[OF a] by (intro log_mono) simp_all
  then have "log 2 (sizeKB a + 1) * HeightScale opts \<le> log 2 (sizeKB b + 1) * HeightScale opts"
    using assms(2) by (rule mult_right_mono)
  then show ?thesis
    unfolding scaleHeight_pos[OF a assms(1)] scaleHeight_pos[OF b assms(1)] clamp_def by auto
qed

lemma scaleHeight_clamped:
  assumes "MinHeight opts \<le> MaxHeight opts" "0 <s a"
    "MaxHeight opts \<le> log 2 (sizeKB a + 1) * HeightScale opts"
  shows "scaleHeight a opts = MaxHeight opts"
  unfolding scaleHeight_pos[OF assms(2,1)] clamp_def using assms(1,3) by auto

subsection \<open>Unfolding the examples\<close>

lemmas scan_defs = NewScanner_def defaultIgnorePatterns_def ScanSync_def Scan_def scanSync_def
  buildTree_def walkDir_child_def LoadDir_child_def shouldIgnore_def HasPrefix_def ErrInvalid_def
  LoadDir_at_def rootEntry_of_def insertionSort_def bySizeDesc_def background_def cancelled_def
  Let_def word_sless_alt

lemmas ex_fs_defs = ex_scanner_def ex_os_def ex_de_a_def ex_de_b_def ex_de_c_def ex_de_d_def
  ex_de_x_def ex_de_git_def ex_dirInfo_def ex_fileInfo_def

lemmas layout_defs = DefaultOptions_def ModeMapV_def ModeTreeV_def emptyTree_def Compute_def
  computeTreeV_def computeMapV_def isExpanded_def calcDirSize_def collapsedBounds_def
  place_files_def lpFileSize_def lpFileSpacing_def lpFileHeight_def lpDirSize_def
  lpDirSpacing_def lpDirHeight_def lpDirDist_def Let_def

section \<open>The claims\<close>

text \<open>
  C1. After aggregation, the Size of every directory of the resulting tree is the sum
  of the Sizes of its children, at every level of the tree: as the \<^verbatim>\<open>int64\<close> sum that
  the code computes, and as the sum of integers wherever that sum fits an \<^verbatim>\<open>int64\<close>.
  The root's Size is the tree's TotalSize.
\<close>

theorem aggregate_sizes_exact:
  "sorts_Slice srt \<Longrightarrow>
     sizes_exact (snd (aggregate srt t e)) \<and>
     sizes_exact (Root (buildTree srt now e)) \<and>
     sizes_exact_int (Root (buildTree srt now e)) \<and>
     TotalSize (buildTree srt now e) = Size (Root (buildTree srt now e))"
  using aggregate_props(1)[of srt] by (simp add: buildTree_Root sizes_exact_int)

theorem aggregate_sizes_exact_witness:
  "sorts_Slice (insertionSort :: Entry sort_Slice) \<and>
   sizes_exact (snd (aggregate insertionSort (emptyTree ex_root) ex_root)) \<and>
   sizes_exact (Root (buildTree insertionSort 7 ex_root)) \<and>
   sizes_exact_int (Root (buildTree insertionSort 7 ex_root)) \<and>
   TotalSize (buildTree insertionSort 7 ex_root) = Size (Root (buildTree insertionSort 7 ex_root)) \<and>
   Size (Root (buildTree insertionSort 7 ex_root)) = 310 \<and>
   map Size (Children (Root (buildTree insertionSort 7 ex_root))) = [300, 5, 5]"
  using aggregate_sizes_exact[OF sorts_Slice_insertionSort, of "emptyTree ex_root" ex_root 7]
  by (simp add: sorts_Slice_insertionSort buildTree_def ex_root_def ex_dirD_def ex_fileA_def
      ex_fileB_def ex_fileC_def insertionSort_def bySizeDesc_def Let_def word_sless_alt)




text \<open>
  C3 (as stated). Under either layout a directory that is not in a non-nil
  ExpandedPaths is a placeholder of the fixed minimum size without child nodes. The
  treemap does not do this: with an empty ExpandedPaths, the directory \<^verbatim>\<open>/r\<close> holding
  one file of 1024 bytes is laid out 29.4 wide and deep, with the node of the file as
  its child.
\<close>

theorem treemap_collapsed_counterexample:
  "Mode ex_mapv_opts = ModeMapV \<and> ExpandedPaths ex_mapv_opts = Some Map.empty \<and>
   (\<exists>node. Compute ex_env (Some (emptyTree ex_mapv_root)) ex_mapv_opts = Some node \<and>
      Type (Node_Entry node) = TypeDir \<and> Path (Node_Entry node) = ''/r'' \<and>
      \<not> isExpanded ex_mapv_opts (Path (Node_Entry node)) \<and>
      map (Name \<circ> Node_Entry) (Node_Children node) = [''a''] \<and>
      Node_Size node = \<lparr>Vector3.X = 147 / 5, Y = 1, Z = 147 / 5\<rparr> \<and>
      \<not> collapsed_is_placeholder ex_mapv_opts node)"
  by (simp add: layout_defs placeholderSize_def ex_env_def ex_dir_d_def ex_scanned_def ex_treev_opts_def ex_mapv_opts_def ex_mapv_root_def scaleHeight_def float64_of_int64_def squarify_def
      sizedChildren_of_def squarify_weight_def insertionSort_def layoutRow_def
      worstAspectRatio_def word_sless_alt word_sle_eq)

text \<open>
  C3 (amended). Under the pedestal-tree layout, every node that \<open>Compute\<close> lays out for
  a directory that ExpandedPaths does not mark as expanded has the fixed minimum size
  and no child nodes, whatever the directory holds. Under the treemap layout the
  result of \<open>Compute\<close> does not depend on ExpandedPaths at all.
\<close>

theorem pedestal_collapsed_placeholder:
  "(Mode opts = ModeTreeV \<longrightarrow> Compute env (Some t) opts = Some node \<longrightarrow>
      collapsed_is_placeholder opts node) \<and>
   (Mode opts \<noteq> ModeTreeV \<longrightarrow>
      Compute env (Some t) (opts\<lparr>ExpandedPaths := xp\<rparr>) = Compute env (Some t) opts)"
proof (intro conjI impI)
  assume "Mode opts = ModeTreeV" "Compute env (Some t) opts = Some node"
  then have "computeTreeV env t opts = Some node"
    by (simp add: Compute_def ModeTreeV_def ModeMapV_def)
  then show "collapsed_is_placeholder opts node" by (rule computeTreeV_ok)
next
  assume "Mode opts \<noteq> ModeTreeV"
  then show "Compute env (Some t) (opts\<lparr>ExpandedPaths := xp\<rparr>) = Compute env (Some t) opts"
    by (rule Compute_MapV_ExpandedPaths)
qed

theorem pedestal_collapsed_placeholder_witness:
  "Mode ex_treev_opts = ModeTreeV \<and>
   (\<exists>node. Compute ex_env (Some (emptyTree ex_scanned)) ex_treev_opts = Some node \<and>
      collapsed_is_placeholder ex_treev_opts node \<and>
      map (Name \<circ> Node_Entry) (Node_Children node) = [''a'', ''d''] \<and>
      map Node_Size (Node_Children node) =
        [\<lparr>Vector3.X = 1 / 2, Y = 1 / 10, Z = 1 / 2\<rparr>,
         \<lparr>Vector3.X = 7 / 10, Y = 1 / 10, Z = 7 / 10\<rparr>] \<and>
      map Node_Children (Node_Children node) = [[], []]) \<and>
   Mode ex_mapv_opts \<noteq> ModeTreeV \<and>
   Compute ex_env (Some (emptyTree ex_mapv_root)) (ex_mapv_opts\<lparr>ExpandedPaths := None\<rparr>) =
     Compute ex_env (Some (emptyTree ex_mapv_root)) ex_mapv_opts"
proof -
  have m: "Mode ex_treev_opts = ModeTreeV" "Mode ex_mapv_opts \<noteq> ModeTreeV"
    by (simp_all add: layout_defs placeholderSize_def ex_env_def ex_dir_d_def ex_scanned_def ex_treev_opts_def ex_mapv_opts_def ex_mapv_root_def)
  obtain node where n: "Compute ex_env (Some (emptyTree ex_scanned)) ex_treev_opts = Some node"
    and c: "map (Name \<circ> Node_Entry) (Node_Children node) = [''a'', ''d'']"
      "map Node_Size (Node_Children node) =
        [\<lparr>Vector3.X = 1 / 2, Y = 1 / 10, Z = 1 / 2\<rparr>,
         \<lparr>Vector3.X = 7 / 10, Y = 1 / 10, Z = 7 / 10\<rparr>]"
      "map Node_Children (Node_Children node) = [[], []]"
    by (simp add: layout_defs placeholderSize_def ex_env_def ex_dir_d_def ex_scanned_def ex_treev_opts_def ex_mapv_opts_def ex_mapv_root_def)
  from pedestal_collapsed_placeholder[of ex_treev_opts ex_env "emptyTree ex_scanned" node]
  have 1: "collapsed_is_placeholder ex_treev_opts node" using m n by simp
  from pedestal_collapsed_placeholder[of ex_mapv_opts ex_env "emptyTree ex_mapv_root" _ None]
  have 2: "Compute ex_env (Some (emptyTree ex_mapv_root)) (ex_mapv_opts\<lparr>ExpandedPaths := None\<rparr>) =
     Compute ex_env (Some (emptyTree ex_mapv_root)) ex_mapv_opts" using m by simp
  show ?thesis using m n c 1 2 by simp
qed

text \<open>
  C4 (as stated). For fixed options with \<open>MinHeight \<le> MaxHeight\<close> and a non-negative
  \<open>HeightScale\<close>, all sufficiently large sizes map to \<open>MaxHeight\<close>. This fails for the
  default options with \<open>HeightScale = 0\<close>, where every size maps to \<open>MinHeight = 0.1\<close>,
  and for the default options with \<open>MaxHeight = 100\<close>, where no \<^verbatim>\<open>int64\<close> size maps
  higher than 54.
\<close>

theorem scaleHeight_clamp_counterexample:
  "MinHeight ((DefaultOptions ModeMapV)\<lparr>HeightScale := 0\<rparr>)
     \<le> MaxHeight ((DefaultOptions ModeMapV)\<lparr>HeightScale := 0\<rparr>) \<and>
   0 \<le> HeightScale ((DefaultOptions ModeMapV)\<lparr>HeightScale := 0\<rparr>) \<and>
   MaxHeight ((DefaultOptions ModeMapV)\<lparr>HeightScale := 0\<rparr>) = 20 \<and>
   (\<forall>a. scaleHeight a ((DefaultOptions ModeMapV)\<lparr>HeightScale := 0\<rparr>) = 1 / 10) \<and>
   MinHeight ((DefaultOptions ModeMapV)\<lparr>MaxHeight := 100\<rparr>)
     \<le> MaxHeight ((DefaultOptions ModeMapV)\<lparr>MaxHeight := 100\<rparr>) \<and>
   0 \<le> HeightScale ((DefaultOptions ModeMapV)\<lparr>MaxHeight := 100\<rparr>) \<and>
   (\<forall>a. scaleHeight a ((DefaultOptions ModeMapV)\<lparr>MaxHeight := 100\<rparr>) \<le> 54)"
proof -
  have 1: "scaleHeight a ((DefaultOptions ModeMapV)\<lparr>HeightScale := 0\<rparr>) = 1 / 10" for a
    by (simp add: scaleHeight_def DefaultOptions_def Let_def)
  have 2: "scaleHeight a ((DefaultOptions ModeMapV)\<lparr>MaxHeight := 100\<rparr>) \<le> 54" for a
  proof (cases "0 <s a")
    case False
    then have "a \<le>s 0" by (simp add: word_sless_alt word_sle_eq)
    then show ?thesis by (simp add: scaleHeight_nonpos DefaultOptions_def)
  next
    case True
    have "sint a < 2 ^ 63" using sint_lt[of a] by simp
    then have "real_of_int (sint a) < 2 ^ 63"
      by (metis of_int_less_iff of_int_numeral of_int_power)
    then have "sizeKB a + 1 \<le> 2 ^ 54"
      by (simp add: sizeKB_def float64_of_int64_def del: of_int_sint)
    moreover have "0 < sizeKB a + 1" using sizeKB_pos[OF True] by simp
    ultimately have "log 2 (sizeKB a + 1) \<le> log 2 (2 ^ 54)" by (intro log_mono) simp_all
    also have "log 2 (2 ^ 54) = (54 :: real)" using log_pow_cancel[of 2 54] by simp
    finally have l: "log 2 (sizeKB a + 1) \<le> 54" .
    show ?thesis
      using l scaleHeight_pos[OF True, of "(DefaultOptions ModeMapV)\<lparr>MaxHeight := 100\<rparr>"]
      by (simp add: DefaultOptions_def clamp_def)
  qed
  show ?thesis using 1 2 by (simp add: DefaultOptions_def)
qed

text \<open>
  C4 (amended). With \<^verbatim>\<open>float32\<close> and \<^verbatim>\<open>float64\<close> read as real numbers: for fixed
  options with \<open>MinHeight \<le> MaxHeight\<close> and a non-negative \<open>HeightScale\<close>,
  \<open>scaleHeight\<close> is monotonic non-decreasing in the size, maps every zero or negative
  size to \<open>MinHeight\<close>, lies between \<open>MinHeight\<close> and \<open>MaxHeight\<close>, and for a positive
  size equals \<open>clamp (log2 (sizeKB + 1) \<times> HeightScale) MinHeight MaxHeight\<close> with
  \<open>sizeKB = size / 1024\<close>. It is \<open>MaxHeight\<close> from the first size on whose scaled
  logarithm reaches \<open>MaxHeight\<close>, if there is one.
\<close>

theorem scaleHeight_props:
  "MinHeight opts \<le> MaxHeight opts \<Longrightarrow> 0 \<le> HeightScale opts \<Longrightarrow>
     (a \<le>s b \<longrightarrow> scaleHeight a opts \<le> scaleHeight b opts) \<and>
     (a \<le>s 0 \<longrightarrow> scaleHeight a opts = MinHeight opts) \<and>
     MinHeight opts \<le> scaleHeight a opts \<and> scaleHeight a opts \<le> MaxHeight opts \<and>
     (0 <s a \<longrightarrow>
        scaleHeight a opts =
          clamp (log 2 (sizeKB a + 1) * HeightScale opts) (MinHeight opts) (MaxHeight opts)) \<and>
     (0 <s a \<and> MaxHeight opts \<le> log 2 (sizeKB a + 1) * HeightScale opts \<and> a \<le>s b \<longrightarrow>
        scaleHeight b opts = MaxHeight opts)"
proof -
  assume m: "MinHeight opts \<le> MaxHeight opts" and h: "0 \<le> HeightScale opts"
  have "scaleHeight b opts = MaxHeight opts"
    if "0 <s a" "MaxHeight opts \<le> log 2 (sizeKB a + 1) * HeightScale opts" "a \<le>s b"
  proof -
    have "MaxHeight opts \<le> scaleHeight b opts"
      using scaleHeight_mono[OF m h that(3)] scaleHeight_clamped[OF m that(1,2)] by simp
    then show ?thesis using scaleHeight_bounds[OF m, of b] by simp
  qed
  then show ?thesis
    using scaleHeight_mono[OF m h] scaleHeight_nonpos scaleHeight_bounds[OF m] scaleHeight_pos[OF _ m]
    by blast
qed

theorem scaleHeight_props_witness:
  "MinHeight (DefaultOptions ModeMapV) \<le> MaxHeight (DefaultOptions ModeMapV) \<and>
   0 \<le> HeightScale (DefaultOptions ModeMapV) \<and>
   scaleHeight 1024 (DefaultOptions ModeMapV) \<le> scaleHeight 3072 (DefaultOptions ModeMapV) \<and>
   scaleHeight 0 (DefaultOptions ModeMapV) = 1 / 10 \<and>
   scaleHeight (- 5) (DefaultOptions ModeMapV) = 1 / 10 \<and>
   scaleHeight 1024 (DefaultOptions ModeMapV) = 1 \<and>
   scaleHeight 3072 (DefaultOptions ModeMapV) = 2 \<and>
   scaleHeight (2 ^ 30 - 1024) (DefaultOptions ModeMapV) = 20 \<and>
   scaleHeight (2 ^ 40) (DefaultOptions ModeMapV) = 20"
proof -
  have h: "MinHeight (DefaultOptions ModeMapV) \<le> MaxHeight (DefaultOptions ModeMapV)"
    "0 \<le> HeightScale (DefaultOptions ModeMapV)"
    by (simp_all add: DefaultOptions_def)
  have k: "sizeKB 1024 = 1" "sizeKB 3072 = 3" "sizeKB (2 ^ 30 - 1024) = 2 ^ 20 - 1"
    by (simp_all add: sizeKB_def float64_of_int64_def)
  have l: "log 2 (2 ^ 20 - 1 + 1) = 20" "log 2 (3 + 1) = 2"
    using log_pow_cancel[of 2 20] log_pow_cancel[of 2 2] by simp_all
  have s: "(0 :: int64) <s 1024" "(0 :: int64) <s 3072" "(0 :: int64) <s 2 ^ 30 - 1024"
    "(1024 :: int64) \<le>s 3072" "(2 ^ 30 - 1024 :: int64) \<le>s 2 ^ 40" "(0 :: int64) \<le>s 0"
    "(- 5 :: int64) \<le>s 0"
    by (simp_all add: word_sless_alt word_sle_eq)
  from scaleHeight_props[OF h, of 1024 3072] scaleHeight_props[OF h, of 0 0]
    scaleHeight_props[OF h, of "- 5" 0] scaleHeight_props[OF h, of 3072 3072]
    scaleHeight_props[OF h, of "2 ^ 30 - 1024" "2 ^ 40"]
    scaleHeight_props[OF h, of "2 ^ 30 - 1024" "2 ^ 30 - 1024"]
  show ?thesis using h s k l by (simp add: DefaultOptions_def clamp_def)
qed



text \<open>
  C6. For a root that is a directory and for every context, \<open>ScanSync\<close> returns a tree
  and no error: the tree is the aggregate of whatever the walk built before the polls
  of the context stopped it. For a context that is cancelled from the start the root
  has no children and is not marked as loaded.
\<close>

theorem scan_cancellation:
  "sorts_Slice srt \<Longrightarrow> filepath_Abs os path = (absRoot, None) \<Longrightarrow>
   os_Stat os absRoot = Inr info \<Longrightarrow> info_IsDir info \<Longrightarrow>
     ScanSync s os srt ctx path =
       (Some (buildTree srt (time_Now os)
                (walkDir s os ctx (rootEntry_of os absRoot info)
                   (fst (os_ReadDir os absRoot)) (snd (os_ReadDir os absRoot)))), None) \<and>
     (\<exists>t. ScanSync s os srt cancelled path = (Some t, None) \<and>
          Children (Root t) = [] \<and> \<not> Loaded (Root t) \<and> Error (Root t) = [] \<and>
          Tree.FileCount t = 0 \<and> Errors t = [])"
proof -
  assume srt: "sorts_Slice srt" and v: "filepath_Abs os path = (absRoot, None)"
    "os_Stat os absRoot = Inr info" "info_IsDir info"
  have 1: "ScanSync s os srt ctx path =
       (Some (buildTree srt (time_Now os)
                (walkDir s os ctx (rootEntry_of os absRoot info)
                   (fst (os_ReadDir os absRoot)) (snd (os_ReadDir os absRoot)))), None)" for ctx
    unfolding ScanSync_def by (rule scanSync_valid[OF v])
  have e: "srt bySizeDesc [] = []" using sort_bySizeDesc(2)[OF srt, of "[]"] by simp
  let ?t = "buildTree srt (time_Now os) (rootEntry_of os absRoot info)"
  have 2: "Children (Root ?t) = [] \<and> \<not> Loaded (Root ?t) \<and> Error (Root ?t) = [] \<and>
          Tree.FileCount ?t = 0 \<and> Errors ?t = []"
    by (simp add: buildTree_def rootEntry_of_def Let_def e)
  show ?thesis using 1 2 by (simp add: walkDir_cancelled)
qed

theorem scan_cancellation_witness:
  "sorts_Slice (insertionSort :: Entry sort_Slice) \<and>
   filepath_Abs ex_os ''/r'' = (''/r'', None) \<and> os_Stat ex_os ''/r'' = Inr ex_dirInfo \<and>
   info_IsDir ex_dirInfo \<and>
   (\<exists>t. ScanSync ex_scanner ex_os insertionSort cancelled ''/r'' = (Some t, None) \<and>
        Root t = Entry ''r'' ''/r'' TypeDir 0 3 [] 0 [] False \<and>
        Tree.FileCount t = 0 \<and> Errors t = []) \<and>
   (\<exists>t. ScanSync ex_scanner ex_os insertionSort (\<lambda>p k. p = ''/r'' \<and> k = 4) ''/r'' = (Some t, None) \<and>
        Root t = Entry ''r'' ''/r'' TypeDir 0 3 [] 0 [] False) \<and>
   (\<exists>t. ScanSync ex_scanner ex_os insertionSort (\<lambda>p k. p = ''/r/d'') ''/r'' = (Some t, None) \<and>
        map Name (Children (Root t)) = [''a'', ''b'', ''d'', ''x''] \<and>
        map Loaded (Children (Root t)) = [False, False, False, False] \<and>
        Tree.FileCount t = 2)"
  using scan_cancellation[OF sorts_Slice_insertionSort, of ex_os "''/r''" "''/r''" ex_dirInfo
          ex_scanner cancelled]
  by (simp add: sorts_Slice_insertionSort scan_defs ex_fs_defs)

text \<open>
  C7. When \<open>LoadDir\<close> succeeds on a directory of the tree that was not loaded yet, the
  entry is marked as loaded, its \<^verbatim>\<open>Size\<close> becomes the sum of the sizes of its new
  children, and these are sorted by descending size. Every entry of the tree outside
  the subtree of that directory keeps its \<^verbatim>\<open>Size\<close>, the ancestors included; when the
  directory had no children before, these are all the other entries of the tree.
\<close>

theorem LoadDir_frame:
  "sorts_Slice srt \<Longrightarrow> lookup r a = Some e \<Longrightarrow> Type e = TypeDir \<Longrightarrow> \<not> Loaded e \<Longrightarrow>
   LoadDir_at s os srt r a = (r', None) \<Longrightarrow>
     (\<exists>e'. lookup r' a = Some e' \<and> Loaded e' \<and>
           Size e' = sum_list (map Size (Children e')) \<and>
           sorted_wrt (\<lambda>x y. Size y \<le>s Size x) (Children e')) \<and>
     (\<forall>b x. \<not> prefix a b \<longrightarrow> lookup r b = Some x \<longrightarrow>
           (\<exists>x'. lookup r' b = Some x' \<and> Size x' = Size x)) \<and>
     (\<forall>b x. strict_prefix b a \<longrightarrow> lookup r b = Some x \<longrightarrow>
           (\<exists>x'. lookup r' b = Some x' \<and> Size x' = Size x)) \<and>
     (Children e = [] \<longrightarrow>
        (\<forall>b x. b \<noteq> a \<longrightarrow> lookup r b = Some x \<longrightarrow>
           (\<exists>x'. lookup r' b = Some x' \<and> Size x' = Size x)))"
proof -
  assume srt: "sorts_Slice srt" and l: "lookup r a = Some e" and d: "Type e = TypeDir"
    and nl: "\<not> Loaded e" and ld: "LoadDir_at s os srt r a = (r', None)"
  obtain e' where e': "LoadDir s os srt e = (e', None)" and r': "r' = update_at r a e'"
    using ld l by (auto simp: LoadDir_at_def split: prod.splits)
  have 1: "lookup r' a = Some e'" unfolding r' using l by (rule lookup_update_at_same)
  have 2: "Loaded e' \<and> Size e' = sum_list (map Size (Children e')) \<and>
           sorted_wrt (\<lambda>x y. Size y \<le>s Size x) (Children e')"
    using LoadDir_success[OF srt d nl e'] by simp
  have 3: "\<exists>x'. lookup r' b = Some x' \<and> Size x' = Size x"
    if "\<not> prefix a b" "lookup r b = Some x" for b x
    unfolding r' using l that by (rule lookup_update_at_other)
  have 4: "\<not> prefix a b" if "strict_prefix b a" for b
    using that by (metis prefix_order.less_le_not_le strict_prefix_def)
  have 5: "\<not> prefix a b" if "Children e = []" "b \<noteq> a" "lookup r b = Some x" for b x
    using lookup_below_leaf[OF l that(1) that(3)] that(2) by blast
  show ?thesis using 1 2 3 4 5 by blast
qed

theorem LoadDir_frame_witness:
  "sorts_Slice (insertionSort :: Entry sort_Slice) \<and>
   lookup ex_lazy [1] = Some (Entry ''d'' ''/r/d'' TypeDir 0 3 [] 1 [] False) \<and>
   LoadDir_at ex_scanner ex_os insertionSort ex_lazy [1] =
     (Entry ''r'' ''/r'' TypeDir 10 3
        [Entry ''a'' ''/r/a'' TypeFile 5 3 [] 1 [] False,
         Entry ''d'' ''/r/d'' TypeDir 300 3
           [Entry ''c'' ''/r/d/c'' TypeFile 300 3 [] 2 [] False] 1 [] True,
         Entry ''b'' ''/r/b'' TypeFile 5 3 [] 1 [] False,
         Entry ''x'' ''/r/x'' TypeDir 0 3 [] 1 [] False] 0 [] True, None) \<and>
   (\<exists>x'. lookup (fst (LoadDir_at ex_scanner ex_os insertionSort ex_lazy [1])) [] = Some x' \<and>
         Size x' = Size ex_lazy \<and> Size x' = 10)"
proof -
  have l: "lookup ex_lazy [1] = Some (Entry ''d'' ''/r/d'' TypeDir 0 3 [] 1 [] False)"
    by (simp add: ex_lazy_def)
  have ld: "LoadDir_at ex_scanner ex_os insertionSort ex_lazy [1] =
     (Entry ''r'' ''/r'' TypeDir 10 3
        [Entry ''a'' ''/r/a'' TypeFile 5 3 [] 1 [] False,
         Entry ''d'' ''/r/d'' TypeDir 300 3
           [Entry ''c'' ''/r/d/c'' TypeFile 300 3 [] 2 [] False] 1 [] True,
         Entry ''b'' ''/r/b'' TypeFile 5 3 [] 1 [] False,
         Entry ''x'' ''/r/x'' TypeDir 0 3 [] 1 [] False] 0 [] True, None)"
    by (simp add: scan_defs ex_fs_defs ex_lazy_def)
  have le: "lookup ex_lazy [] = Some ex_lazy" by simp
  from LoadDir_frame[OF sorts_Slice_insertionSort l _ _ ld]
  have "\<forall>b x. strict_prefix b [1] \<longrightarrow> lookup ex_lazy b = Some x \<longrightarrow>
           (\<exists>x'. lookup (Entry ''r'' ''/r'' TypeDir 10 3
        [Entry ''a'' ''/r/a'' TypeFile 5 3 [] 1 [] False,
         Entry ''d'' ''/r/d'' TypeDir 300 3
           [Entry ''c'' ''/r/d/c'' TypeFile 300 3 [] 2 [] False] 1 [] True,
         Entry ''b'' ''/r/b'' TypeFile 5 3 [] 1 [] False,
         Entry ''x'' ''/r/x'' TypeDir 0 3 [] 1 [] False] 0 [] True) b = Some x' \<and> Size x' = Size x)"
    by simp
  then show ?thesis using l ld le sorts_Slice_insertionSort
    by (simp add: ex_lazy_def)
qed

text \<open>
  C8. The root of a scan has depth 0 and every child in the tree is one level deeper
  than its parent; this holds for the tree that \<open>ScanSync\<close> returns and after every
  sequence of \<open>LoadDir\<close> calls on entries of that tree.
\<close>

theorem scan_depths:
  "sorts_Slice srt \<Longrightarrow> ScanSync s os srt ctx path = (Some t, err) \<Longrightarrow>
     Depth (Root t) = 0 \<and> depths_ok (Root t) \<and>
     Depth (LoadDir_seq s srt (Root t) loads) = 0 \<and> depths_ok (LoadDir_seq s srt (Root t) loads)"
proof -
  assume srt: "sorts_Slice srt" and sc: "ScanSync s os srt ctx path = (Some t, err)"
  from sc obtain absRoot info where v: "filepath_Abs os path = (absRoot, None)"
    "os_Stat os absRoot = Inr info" "info_IsDir info"
    unfolding ScanSync_def using scanSync_cases by blast
  let ?w = "walkDir s os ctx (rootEntry_of os absRoot info)
                   (fst (os_ReadDir os absRoot)) (snd (os_ReadDir os absRoot))"
  have t: "t = buildTree srt (time_Now os) ?w"
    using sc scanSync_valid[OF v, of s srt ctx] by (simp add: ScanSync_def)
  have r: "Depth (rootEntry_of os absRoot info) = 0" "depths_ok (rootEntry_of os absRoot info)"
    by (simp_all add: rootEntry_of_def)
  have w: "Depth ?w = 0" "depths_ok ?w"
    using walkDir_depths(1)[of s os ctx "rootEntry_of os absRoot info"] r by simp_all
  have b: "Depth (Root t) = 0" "depths_ok (Root t)"
    unfolding t using buildTree_depths[OF srt] w by simp_all
  show ?thesis using b LoadDir_seq_depths[OF srt b(2), of s loads] by simp
qed

theorem scan_depths_witness:
  "sorts_Slice (insertionSort :: Entry sort_Slice) \<and>
   (\<exists>t. ScanSync ex_scanner ex_os insertionSort background ''/r'' = (Some t, None) \<and>
        Depth (Root t) = 0 \<and> depths_ok (Root t) \<and>
        map Depth (Children (Root t)) = [1, 1, 1, 1] \<and>
        depths_ok (LoadDir_seq ex_scanner insertionSort (Root t) [(ex_os, [3]), (ex_os, [0])]))"
proof -
  obtain t where t: "ScanSync ex_scanner ex_os insertionSort background ''/r'' = (Some t, None)"
    and c: "map Depth (Children (Root t)) = [1, 1, 1, 1]"
    by (simp add: scan_defs ex_fs_defs)
  from scan_depths[OF sorts_Slice_insertionSort t, of "[(ex_os, [3]), (ex_os, [0])]"] t c
  show ?thesis by (simp add: sorts_Slice_insertionSort)
qed

text \<open>
  C9. In the pedestal tree, let a directory \<open>D\<close> of the tree stand at address \<open>a\<close>, with
  a path that a non-nil ExpandedPaths does not mark as expanded. Replacing \<open>D\<close> by any
  directory of the same path, whatever its size, files and subtrees, leaves the whole
  map of bounds as it was; the bounds of \<open>D\<close>, when the width pass reaches it, are the
  fixed minimum footprint, and so are the bounds that the width pass computes for either
  directory on its own.
\<close>

theorem collapsed_footprint:
  "ExpandedPaths opts = Some m \<Longrightarrow> m (Path D) \<noteq> Some True \<Longrightarrow> lookup r a = Some D \<Longrightarrow>
   Type D = TypeDir \<Longrightarrow> Type D' = TypeDir \<Longrightarrow> Path D' = Path D \<Longrightarrow>
     calcBounds opts [] (update_at r a D') Map.empty = calcBounds opts [] r Map.empty \<and>
     (calcBounds opts [] r Map.empty a = None \<or>
      calcBounds opts [] r Map.empty a = Some collapsedBounds) \<and>
     calcBounds opts a D bs a = Some collapsedBounds \<and>
     calcBounds opts a D' bs a = Some collapsedBounds"
proof -
  assume xp: "ExpandedPaths opts = Some m" "m (Path D) \<noteq> Some True"
    and l: "lookup r a = Some D" and d: "Type D = TypeDir" and d': "Type D' = TypeDir"
    and p: "Path D' = Path D"
  have ne: "\<not> isExpanded opts (Path D)" using xp by (rule not_isExpanded)
  have 1: "calcBounds opts [] (update_at r a D') Map.empty = calcBounds opts [] r Map.empty"
    using l d d' p ne by (rule calcBounds_update_at)
  have "collapsed_bounds_ok opts r (calcBounds opts [] r Map.empty)"
    by (rule calcBounds_inv(1)[OF _ collapsed_bounds_ok_empty]) simp
  then have 2: "calcBounds opts [] r Map.empty a = None \<or>
      calcBounds opts [] r Map.empty a = Some collapsedBounds"
    using l d ne unfolding collapsed_bounds_ok_def by (cases "calcBounds opts [] r Map.empty a") auto
  have 3: "calcBounds opts a D bs a = Some collapsedBounds"
    using d ne by (simp add: calcBounds_collapsed)
  have 4: "calcBounds opts a D' bs a = Some collapsedBounds"
    using d' ne p by (simp add: calcBounds_collapsed)
  show ?thesis using 1 2 3 4 by simp
qed

theorem collapsed_footprint_witness:
  "ExpandedPaths ex_treev_opts = Some [''/r'' \<mapsto> True] \<and>
   [''/r'' \<mapsto> True] (Path ex_dir_d) \<noteq> Some True \<and>
   lookup ex_scanned [0] = Some ex_dir_d \<and> Type ex_dir_d = TypeDir \<and>
   Type ex_dir_d' = TypeDir \<and> Path ex_dir_d' = Path ex_dir_d \<and>
   calcBounds ex_treev_opts [] (update_at ex_scanned [0] ex_dir_d') Map.empty =
     calcBounds ex_treev_opts [] ex_scanned Map.empty \<and>
   calcBounds ex_treev_opts [] ex_scanned Map.empty [0] =
     Some \<lparr>minX = - 3 / 5, maxX = 3 / 5,
           vis_size = \<lparr>Vector3.X = 7 / 10, Y = 1 / 10, Z = 7 / 10\<rparr>\<rparr> \<and>
   calcBounds ex_treev_opts [] (update_at ex_scanned [0] ex_dir_d') Map.empty [0] =
     Some \<lparr>minX = - 3 / 5, maxX = 3 / 5,
           vis_size = \<lparr>Vector3.X = 7 / 10, Y = 1 / 10, Z = 7 / 10\<rparr>\<rparr>"
proof -
  have h: "ExpandedPaths ex_treev_opts = Some [''/r'' \<mapsto> True]"
    "[''/r'' \<mapsto> True] (Path ex_dir_d) \<noteq> Some True"
    "lookup ex_scanned [0] = Some ex_dir_d" "Type ex_dir_d = TypeDir"
    "Type ex_dir_d' = TypeDir" "Path ex_dir_d' = Path ex_dir_d"
    by (simp_all add: layout_defs ex_dir_d_def ex_dir_d'_def ex_scanned_def ex_treev_opts_def)
  have v: "calcBounds ex_treev_opts [] ex_scanned Map.empty [0] =
     Some \<lparr>minX = - 3 / 5, maxX = 3 / 5,
           vis_size = \<lparr>Vector3.X = 7 / 10, Y = 1 / 10, Z = 7 / 10\<rparr>\<rparr>"
    by (simp add: layout_defs ex_dir_d_def ex_dir_d'_def ex_scanned_def ex_treev_opts_def)
  from collapsed_footprint[OF h, of Map.empty] show ?thesis using h v by simp
qed

text \<open>
  C10. On an entry that is not a directory, or that is already marked as loaded,
  \<open>LoadDir\<close> returns no error and changes nothing, neither in the entry nor in the tree
  that holds it. A failed \<open>LoadDir\<close> records the message and marks the entry as loaded,
  so a later \<open>LoadDir\<close> on it, whatever the file system answers then, returns no error
  and leaves it as it is.
\<close>

theorem LoadDir_skips:
  "(Type e \<noteq> TypeDir \<or> Loaded e \<longrightarrow>
      LoadDir s os srt e = (e, None) \<and>
      (lookup r a = Some e \<longrightarrow> LoadDir_at s os srt r a = (r, None))) \<and>
   (LoadDir s os srt e = (e', Some failure) \<longrightarrow>
      Loaded e' \<and> Error e' = errorString failure \<and> LoadDir s os' srt e' = (e', None))"
proof (intro conjI impI)
  assume h: "Type e \<noteq> TypeDir \<or> Loaded e"
  then show n: "LoadDir s os srt e = (e, None)" by (rule LoadDir_noop)
  assume "lookup r a = Some e"
  then show "LoadDir_at s os srt r a = (r, None)"
    using n by (simp add: LoadDir_at_def update_at_lookup_id)
next
  assume f: "LoadDir s os srt e = (e', Some failure)"
  then show l: "Loaded e'" and "Error e' = errorString failure"
    using LoadDir_failure by blast+
  then show "LoadDir s os' srt e' = (e', None)" by (simp add: LoadDir_noop)
qed

theorem LoadDir_skips_witness:
  "LoadDir ex_scanner ex_os insertionSort ex_lazy = (ex_lazy, None) \<and>
   lookup ex_lazy [0] = Some (Entry ''a'' ''/r/a'' TypeFile 5 3 [] 1 [] False) \<and>
   LoadDir_at ex_scanner ex_os insertionSort ex_lazy [0] = (ex_lazy, None) \<and>
   LoadDir ex_scanner ex_os insertionSort (Entry ''x'' ''/r/x'' TypeDir 0 3 [] 1 [] False)
     = (Entry ''x'' ''/r/x'' TypeDir 0 3 [] 1 ''permission denied'' True,
        Some (Errno ''permission denied'')) \<and>
   LoadDir ex_scanner (ex_os\<lparr>os_ReadDir := (\<lambda>p. ([ex_de_c], None))\<rparr>) insertionSort
       (Entry ''x'' ''/r/x'' TypeDir 0 3 [] 1 ''permission denied'' True)
     = (Entry ''x'' ''/r/x'' TypeDir 0 3 [] 1 ''permission denied'' True, None)"
  using LoadDir_skips[of ex_lazy ex_scanner ex_os insertionSort]
    LoadDir_skips[of "Entry ''a'' ''/r/a'' TypeFile 5 3 [] 1 [] False" ex_scanner ex_os insertionSort
      ex_lazy "[0]"]
    LoadDir_skips[of "Entry ''x'' ''/r/x'' TypeDir 0 3 [] 1 [] False" ex_scanner ex_os insertionSort
      _ _ "Entry ''x'' ''/r/x'' TypeDir 0 3 [] 1 ''permission denied'' True"
      "Errno ''permission denied''" "ex_os\<lparr>os_ReadDir := (\<lambda>p. ([ex_de_c], None))\<rparr>"]
  by (simp add: scan_defs ex_fs_defs ex_lazy_def)

end
